theory Spec2Isabelle
  imports Complex_Main
begin

section \<open>Data model of \<^verbatim>\<open>ExpressionParser.cpp\<close>\<close>

text \<open>
  The development follows \<^verbatim>\<open>Source/Core/InputCommon/ControlReference/ExpressionParser.cpp\<close>.
  Three things the file uses are declared elsewhere (\<^verbatim>\<open>Device.h\<close>, \<^verbatim>\<open>StringUtil.h\<close>) and
  enter the model as parameters:
  \<^item> the class \<^verbatim>\<open>DeviceQualifier\<close>: a type variable \<open>'d\<close> with its default-constructed
    value and its methods \<^verbatim>\<open>FromString\<close> and \<^verbatim>\<open>ToString\<close> (record \<open>DeviceQualifierClass\<close>);
  \<^item> the class \<^verbatim>\<open>Device\<close> and its controls: a control handle is a value of a type
    variable \<open>'c\<close>, a device is the pair of its lookup methods \<^verbatim>\<open>FindInput\<close> and
    \<^verbatim>\<open>FindOutput\<close>, and the device container is its method \<^verbatim>\<open>FindDevice\<close>;
  \<^item> the state of the controls: \<^verbatim>\<open>control->ToInput()->GetState()\<close> reads a function
    \<open>'c \<Rightarrow> real\<close>, \<^verbatim>\<open>control->ToOutput()->SetState(v)\<close> updates one.

  The header \<^verbatim>\<open>ExpressionParser.h\<close> at hand declares \<^verbatim>\<open>ControlQualifier\<close> and \<^verbatim>\<open>ControlFinder\<close> as
  the \<^verbatim>\<open>.cpp\<close> file uses them, but an \<^verbatim>\<open>Expression\<close> class and a \<^verbatim>\<open>ParseStatus\<close> of another
  revision; the node classes and the statuses follow the \<^verbatim>\<open>.cpp\<close> file.

  \<^verbatim>\<open>ControlState\<close> is a C++ \<^verbatim>\<open>double\<close>; it is read here as a real number, so the rounding
  of \<^verbatim>\<open>+\<close> and \<^verbatim>\<open>-\<close> is not part of the model. A null pointer is \<open>None\<close>. A failing
  \<^verbatim>\<open>assert(false)\<close> is the result \<open>None\<close> of the function that reaches it.
\<close>

datatype TokenType =
    TOK_DISCARD
  | TOK_INVALID
  | TOK_EOF
  | TOK_LPAREN
  | TOK_RPAREN
  | TOK_AND
  | TOK_OR
  | TOK_NOT
  | TOK_ADD
  | TOK_CONTROL


record 'd DeviceQualifierClass =
  dq_default :: 'd
  dq_FromString :: "string \<Rightarrow> 'd"
  dq_ToString :: "'d \<Rightarrow> string"

record 'd ControlQualifier =
  has_device :: bool
  device_qualifier :: 'd
  control_name :: string

text \<open>The constructor \<^verbatim>\<open>ControlQualifier()\<close>: no device, every other member default-constructed.\<close>

definition ControlQualifier_init :: "'d DeviceQualifierClass \<Rightarrow> 'd ControlQualifier" where
  "ControlQualifier_init dq =
     \<lparr>has_device = False, device_qualifier = dq_default dq, control_name = ''''\<rparr>"


record 'd Token =
  type :: TokenType
  qualifier :: "'d ControlQualifier"

text \<open>The two constructors of \<^verbatim>\<open>Token\<close>.\<close>

definition Token1 :: "'d DeviceQualifierClass \<Rightarrow> TokenType \<Rightarrow> 'd Token" where
  "Token1 dq ty = \<lparr>type = ty, qualifier = ControlQualifier_init dq\<rparr>"

definition Token2 :: "TokenType \<Rightarrow> 'd ControlQualifier \<Rightarrow> 'd Token" where
  "Token2 ty q = \<lparr>type = ty, qualifier = q\<rparr>"

record 'c Device =
  FindInput :: "string \<Rightarrow> 'c option"
  FindOutput :: "string \<Rightarrow> 'c option"

record ('d, 'c) ControlFinder =
  container :: "'d \<Rightarrow> 'c Device option"
  default_device :: 'd
  is_input :: bool

section \<open>Expression trees\<close>

datatype ('d, 'c) Expression =
    ControlExpression "'d ControlQualifier" "'c Device option" "'c option"
  | BinaryExpression TokenType "('d, 'c) Expression" "('d, 'c) Expression"
  | UnaryExpression TokenType "('d, 'c) Expression"

text \<open>\<^verbatim>\<open>GetValue\<close> of the three node classes; the first argument is the state of the input controls.\<close>

fun GetValue :: "('c \<Rightarrow> real) \<Rightarrow> ('d, 'c) Expression \<Rightarrow> real option" where
  "GetValue st (ControlExpression q device control) =
     (case control of Some c \<Rightarrow> Some (st c) | None \<Rightarrow> Some 0)"
| "GetValue st (BinaryExpression op lhs rhs) =
     (case GetValue st lhs of
        None \<Rightarrow> None
      | Some lhsValue \<Rightarrow>
          (case GetValue st rhs of
             None \<Rightarrow> None
           | Some rhsValue \<Rightarrow>
               (case op of
                  TOK_AND \<Rightarrow> Some (min lhsValue rhsValue)
                | TOK_OR \<Rightarrow> Some (max lhsValue rhsValue)
                | TOK_ADD \<Rightarrow> Some (min (lhsValue + rhsValue) 1)
                | _ \<Rightarrow> None)))"
| "GetValue st (UnaryExpression op inner) =
     (case GetValue st inner of
        None \<Rightarrow> None
      | Some val \<Rightarrow> (case op of TOK_NOT \<Rightarrow> Some (1 - val) | _ \<Rightarrow> None))"

text \<open>\<^verbatim>\<open>SetValue\<close>; the last argument is the state of the output controls, returned updated.\<close>

fun SetValue :: "('d, 'c) Expression \<Rightarrow> real \<Rightarrow> ('c \<Rightarrow> real) \<Rightarrow> ('c \<Rightarrow> real) option" where
  "SetValue (ControlExpression q device control) val s =
     (case control of Some c \<Rightarrow> Some (s(c := val)) | None \<Rightarrow> Some s)"
| "SetValue (BinaryExpression op lhs rhs) val s =
     (case SetValue lhs val s of None \<Rightarrow> None | Some s' \<Rightarrow> SetValue rhs val s')"
| "SetValue (UnaryExpression op inner) val s =
     (case op of TOK_NOT \<Rightarrow> SetValue inner (1 - val) s | _ \<Rightarrow> None)"

fun CountNumControls :: "('d, 'c) Expression \<Rightarrow> int" where
  "CountNumControls (ControlExpression q device control) =
     (case control of Some c \<Rightarrow> 1 | None \<Rightarrow> 0)"
| "CountNumControls (BinaryExpression op lhs rhs) = CountNumControls lhs + CountNumControls rhs"
| "CountNumControls (UnaryExpression op inner) = CountNumControls inner"


section \<open>ControlFinder\<close>

definition FindDevice :: "('d, 'c) ControlFinder \<Rightarrow> 'd ControlQualifier \<Rightarrow> 'c Device option" where
  "FindDevice finder q =
     (if has_device q then container finder (device_qualifier q)
      else container finder (default_device finder))"

definition FindControl :: "('d, 'c) ControlFinder \<Rightarrow> 'd ControlQualifier \<Rightarrow> 'c option" where
  "FindControl finder q =
     (case FindDevice finder q of
        None \<Rightarrow> None
      | Some device \<Rightarrow>
          (if is_input finder then FindInput device (control_name q)
           else FindOutput device (control_name q)))"

section \<open>Trees the parser can build\<close>

fun IsUnaryExpression :: "TokenType \<Rightarrow> bool" where
  "IsUnaryExpression TOK_NOT = True"
| "IsUnaryExpression _ = False"

fun IsBinaryToken :: "TokenType \<Rightarrow> bool" where
  "IsBinaryToken TOK_AND = True"
| "IsBinaryToken TOK_OR = True"
| "IsBinaryToken TOK_ADD = True"
| "IsBinaryToken _ = False"

text \<open>
  The node classes are local to the translation unit and only the parser constructs them:
  a binary node with a token accepted by \<^verbatim>\<open>IsBinaryToken\<close>, a unary node with one accepted by
  \<^verbatim>\<open>IsUnaryExpression\<close>.
\<close>

fun operators_ok :: "('d, 'c) Expression \<Rightarrow> bool" where
  "operators_ok (ControlExpression q device control) = True"
| "operators_ok (BinaryExpression op lhs rhs) =
     (IsBinaryToken op \<and> operators_ok lhs \<and> operators_ok rhs)"
| "operators_ok (UnaryExpression op inner) = (IsUnaryExpression op \<and> operators_ok inner)"

text \<open>The control handles bound at the leaves, left to right.\<close>

fun bound_controls :: "('d, 'c) Expression \<Rightarrow> 'c list" where
  "bound_controls (ControlExpression q device control) =
     (case control of Some c \<Rightarrow> [c] | None \<Rightarrow> [])"
| "bound_controls (BinaryExpression op lhs rhs) = bound_controls lhs @ bound_controls rhs"
| "bound_controls (UnaryExpression op inner) = bound_controls inner"

section \<open>Lexer\<close>

text \<open>
  The statuses the functions of \<^verbatim>\<open>ExpressionParser.cpp\<close> return. The lexer keeps the text
  from its iterator \<^verbatim>\<open>it\<close> to the end of \<^verbatim>\<open>expr\<close>; every function returns the text that is
  left with its result.
\<close>

datatype ParseStatus = Successful | SyntaxError | EmptyExpression

text \<open>\<^verbatim>\<open>isalpha\<close> of \<^verbatim>\<open><cctype>\<close> in the C locale: the 52 ASCII letters.\<close>

definition isalpha :: "char \<Rightarrow> bool" where
  "isalpha c = (let n = (of_char c :: nat) in (65 \<le> n \<and> n \<le> 90) \<or> (97 \<le> n \<and> n \<le> 122))"

text \<open>
  The test \<^verbatim>\<open>c > 0\<close> on a \<^verbatim>\<open>char\<close>, which is signed on the x86 targets. The only delimiters
  passed are the colon and 0, so an unsigned \<^verbatim>\<open>char\<close> gives the same results.
\<close>

definition char_positive :: "char \<Rightarrow> bool" where
  "char_positive c = (let n = (of_char c :: nat) in 0 < n \<and> n < 128)"

fun FetchBacktickString :: "char \<Rightarrow> string \<Rightarrow> string \<Rightarrow> bool \<times> string \<times> string" where
  "FetchBacktickString otherDelim val [] = (False, val, [])"
| "FetchBacktickString otherDelim val (c # it) =
     (if c = CHR ''`'' then (False, val, it)
      else if char_positive c \<and> c = otherDelim then (True, val, it)
      else FetchBacktickString otherDelim (val @ [c]) it)"

text \<open>
  \<^verbatim>\<open>GetFullyQualifiedControl\<close>: the first call stops at a colon or a backtick, the second
  one (default delimiter 0) at a backtick only.
\<close>

definition GetFullyQualifiedControl :: "'d DeviceQualifierClass \<Rightarrow> string \<Rightarrow> 'd Token \<times> string" where
  "GetFullyQualifiedControl dq it =
     (case FetchBacktickString CHR '':'' [] it of
        (found, val, it') \<Rightarrow>
          if found then
            (case FetchBacktickString (CHR 0x00) [] it' of
               (found', val', it'') \<Rightarrow>
                 (Token2 TOK_CONTROL
                    ((ControlQualifier_init dq)
                       \<lparr>has_device := True, device_qualifier := dq_FromString dq val,
                        control_name := val'\<rparr>),
                  it''))
          else (Token2 TOK_CONTROL ((ControlQualifier_init dq)\<lparr>control_name := val\<rparr>), it'))"

text \<open>The \<^verbatim>\<open>while\<close> loop of \<^verbatim>\<open>GetBarewordsControl\<close>, and the function.\<close>

fun GetBarewordsControl_loop :: "string \<Rightarrow> string \<Rightarrow> string \<times> string" where
  "GetBarewordsControl_loop name [] = (name, [])"
| "GetBarewordsControl_loop name (c # it) =
     (if \<not> isalpha c then (name, c # it) else GetBarewordsControl_loop (name @ [c]) it)"

definition GetBarewordsControl :: "'d DeviceQualifierClass \<Rightarrow> char \<Rightarrow> string \<Rightarrow> 'd Token \<times> string" where
  "GetBarewordsControl dq c it =
     (case GetBarewordsControl_loop [c] it of
        (name, it') \<Rightarrow> (Token2 TOK_CONTROL ((ControlQualifier_init dq)\<lparr>control_name := name\<rparr>), it'))"

definition NextToken :: "'d DeviceQualifierClass \<Rightarrow> string \<Rightarrow> 'd Token \<times> string" where
  "NextToken dq it =
     (case it of
        [] \<Rightarrow> (Token1 dq TOK_EOF, [])
      | c # it' \<Rightarrow>
          if c = CHR '' '' \<or> c = CHR 0x09 \<or> c = CHR 0x0A \<or> c = CHR 0x0D
            then (Token1 dq TOK_DISCARD, it')
          else if c = CHR ''('' then (Token1 dq TOK_LPAREN, it')
          else if c = CHR '')'' then (Token1 dq TOK_RPAREN, it')
          else if c = CHR ''&'' then (Token1 dq TOK_AND, it')
          else if c = CHR ''|'' then (Token1 dq TOK_OR, it')
          else if c = CHR ''!'' then (Token1 dq TOK_NOT, it')
          else if c = CHR ''+'' then (Token1 dq TOK_ADD, it')
          else if c = CHR ''`'' then GetFullyQualifiedControl dq it'
          else if isalpha c then GetBarewordsControl dq c it'
          else (Token1 dq TOK_INVALID, it'))"

text \<open>
  \<^verbatim>\<open>Tokenize\<close> loops until \<^verbatim>\<open>NextToken\<close> returns EOF or INVALID; it ends because every other
  token takes at least one character.
\<close>

lemma FetchBacktickString_length:
  "FetchBacktickString d val it = (found, val', it') \<Longrightarrow> length it' \<le> length it"
  by (induction d val it rule: FetchBacktickString.induct) (auto split: if_splits)

lemma GetBarewordsControl_loop_length:
  "GetBarewordsControl_loop name it = (name', it') \<Longrightarrow> length it' \<le> length it"
  by (induction name it rule: GetBarewordsControl_loop.induct) (auto split: if_splits)

lemma NextToken_length:
  assumes "NextToken dq it = (tok, it')" and "type tok \<noteq> TOK_EOF"
  shows "length it' < length it"
proof (cases it)
  case Nil
  with assms show ?thesis by (auto simp add: NextToken_def Token1_def)
next
  case (Cons c cs)
  have fq: "length (snd (GetFullyQualifiedControl dq cs)) \<le> length cs"
    unfolding GetFullyQualifiedControl_def
    by (auto split: prod.splits dest!: FetchBacktickString_length)
  have bw: "length (snd (GetBarewordsControl dq c cs)) \<le> length cs"
    unfolding GetBarewordsControl_def
    by (auto split: prod.splits dest!: GetBarewordsControl_loop_length)
  from assms(1) have "length it' \<le> length cs"
    unfolding NextToken_def Cons using fq bw
    by (auto split: if_splits)
  with Cons show ?thesis by simp
qed

function Tokenize :: "'d DeviceQualifierClass \<Rightarrow> string \<Rightarrow> 'd Token list \<Rightarrow> ParseStatus \<times> 'd Token list" where
  "Tokenize dq it tokens =
     (case NextToken dq it of
        (tok, it') \<Rightarrow>
          if type tok = TOK_DISCARD then Tokenize dq it' tokens
          else if type tok = TOK_INVALID then (SyntaxError, [])
          else if type tok = TOK_EOF then (Successful, tokens @ [tok])
          else Tokenize dq it' (tokens @ [tok]))"
  by pat_completeness auto
termination
  by (relation "measure (\<lambda>(dq, it, tokens). length it)")
     (auto dest!: NextToken_length [OF sym])

declare Tokenize.simps [simp del]

section \<open>Parser\<close>

record ('d, 'c) ParseResult =
  status :: ParseStatus
  expr :: "('d, 'c) Expression option"

text \<open>
  The parser reads its token vector through the iterator \<^verbatim>\<open>m_it\<close> without a bounds check,
  and builds nodes from \<^verbatim>\<open>unique_ptr\<close>s that may be null. The model keeps the tokens from
  \<^verbatim>\<open>m_it\<close> to the end of the vector; dereferencing the end iterator and building a node
  over a null operand are the two faults.
\<close>

datatype fault = PastTheEnd | NullOperand

type_synonym ('d, 'c) parser_result = "fault + (('d, 'c) ParseResult \<times> 'd Token list)"

function Atom :: "('d, 'c) ControlFinder \<Rightarrow> 'd Token list \<Rightarrow> ('d, 'c) parser_result"
  and Unary :: "('d, 'c) ControlFinder \<Rightarrow> 'd Token list \<Rightarrow> ('d, 'c) parser_result"
  and Binary :: "('d, 'c) ControlFinder \<Rightarrow> 'd Token list \<Rightarrow> ('d, 'c) parser_result"
  and Binary_loop ::
    "('d, 'c) ControlFinder \<Rightarrow> ('d, 'c) Expression option \<Rightarrow> 'd Token list \<Rightarrow> ('d, 'c) parser_result"
  and Paren :: "('d, 'c) ControlFinder \<Rightarrow> 'd Token list \<Rightarrow> ('d, 'c) parser_result"
  and Toplevel :: "('d, 'c) ControlFinder \<Rightarrow> 'd Token list \<Rightarrow> ('d, 'c) parser_result"
where
  "Atom finder [] = Inl PastTheEnd"
| "Atom finder (tok # m_it) =
     (if type tok = TOK_CONTROL then
        Inr (\<lparr>status = Successful,
              expr = Some (ControlExpression (qualifier tok) (FindDevice finder (qualifier tok))
                             (FindControl finder (qualifier tok)))\<rparr>, m_it)
      else if type tok = TOK_LPAREN then Paren finder m_it
      else Inr (\<lparr>status = SyntaxError, expr = None\<rparr>, m_it))"
| "Unary finder [] = Inl PastTheEnd"
| "Unary finder (tok # m_it) =
     (if IsUnaryExpression (type tok) then
        (case Atom finder m_it of
           Inl f \<Rightarrow> Inl f
         | Inr (result, m_it') \<Rightarrow>
             if status result = SyntaxError then Inr (result, m_it')
             else (case expr result of
                     None \<Rightarrow> Inl NullOperand
                   | Some inner \<Rightarrow>
                       Inr (\<lparr>status = Successful,
                             expr = Some (UnaryExpression (type tok) inner)\<rparr>, m_it')))
      else Atom finder (tok # m_it))"
| "Binary finder m_it =
     (case Unary finder m_it of
        Inl f \<Rightarrow> Inl f
      | Inr (result, m_it') \<Rightarrow>
          if status result = SyntaxError then Inr (result, m_it')
          else Binary_loop finder (expr result) m_it')"
| "Binary_loop finder e [] = Inl PastTheEnd"
| "Binary_loop finder e (tok # m_it) =
     (if IsBinaryToken (type tok) then
        (case Unary finder m_it of
           Inl f \<Rightarrow> Inl f
         | Inr (unary_result, m_it') \<Rightarrow>
             if status unary_result = SyntaxError then Inr (unary_result, m_it')
             else (case (e, expr unary_result) of
                     (Some lhs, Some rhs) \<Rightarrow>
                       Binary_loop finder (Some (BinaryExpression (type tok) lhs rhs)) m_it'
                   | _ \<Rightarrow> Inl NullOperand))
      else Inr (\<lparr>status = Successful, expr = e\<rparr>, tok # m_it))"
| "Paren finder m_it =
     (case Toplevel finder m_it of
        Inl f \<Rightarrow> Inl f
      | Inr (result, m_it') \<Rightarrow>
          if status result \<noteq> Successful then Inr (result, m_it')
          else (case m_it' of
                  [] \<Rightarrow> Inl PastTheEnd
                | tok # m_it'' \<Rightarrow>
                    if type tok = TOK_RPAREN then Inr (result, m_it'')
                    else Inr (\<lparr>status = SyntaxError, expr = None\<rparr>, m_it'')))"
| "Toplevel finder m_it = Binary finder m_it"
  by pat_completeness auto

text \<open>
  The loop of \<^verbatim>\<open>Binary\<close> continues on the tokens its call of \<^verbatim>\<open>Unary\<close> left, so termination
  needs that no function returns more tokens than it was given.
\<close>

lemma parser_length_partial:
  "Atom_Unary_Binary_Binary_loop_Paren_Toplevel_dom (Inl (Inl (finder, m_it))) \<Longrightarrow>
     Atom finder m_it = Inr (r, rest) \<Longrightarrow> length rest \<le> length m_it"
  "Atom_Unary_Binary_Binary_loop_Paren_Toplevel_dom (Inl (Inr (Inl (finder, m_it)))) \<Longrightarrow>
     Unary finder m_it = Inr (r, rest) \<Longrightarrow> length rest \<le> length m_it"
  "Atom_Unary_Binary_Binary_loop_Paren_Toplevel_dom (Inl (Inr (Inr (finder, m_it)))) \<Longrightarrow>
     Binary finder m_it = Inr (r, rest) \<Longrightarrow> length rest \<le> length m_it"
  "Atom_Unary_Binary_Binary_loop_Paren_Toplevel_dom (Inr (Inl (finder, e, m_it))) \<Longrightarrow>
     Binary_loop finder e m_it = Inr (r, rest) \<Longrightarrow> length rest \<le> length m_it"
  "Atom_Unary_Binary_Binary_loop_Paren_Toplevel_dom (Inr (Inr (Inl (finder, m_it)))) \<Longrightarrow>
     Paren finder m_it = Inr (r, rest) \<Longrightarrow> length rest \<le> length m_it"
  "Atom_Unary_Binary_Binary_loop_Paren_Toplevel_dom (Inr (Inr (Inr (finder, m_it)))) \<Longrightarrow>
     Toplevel finder m_it = Inr (r, rest) \<Longrightarrow> length rest \<le> length m_it"
proof (induct finder m_it and finder m_it and finder m_it and finder e m_it and finder m_it
    and finder m_it
    arbitrary: r rest and r rest and r rest and r rest and r rest and r rest
    rule: Atom_Unary_Binary_Binary_loop_Paren_Toplevel.pinduct)
  case (1 finder)
  then show ?case by (simp add: Atom.psimps)
next
  case (2 finder tok m_it)
  then show ?case
    by (auto simp: Atom.psimps split: if_splits; force)
next
  case (3 finder)
  then show ?case by (simp add: Unary.psimps)
next
  case (4 finder tok m_it)
  then show ?case
    by (auto simp: Unary.psimps split: if_splits sum.splits prod.splits option.splits; force)
next
  case (5 finder m_it)
  then show ?case
    by (auto simp: Binary.psimps split: if_splits sum.splits prod.splits; force)
next
  case (6 finder e)
  then show ?case by (simp add: Binary_loop.psimps)
next
  case (7 finder e tok m_it)
  then show ?case
    by (auto simp: Binary_loop.psimps split: if_splits sum.splits prod.splits option.splits;
        force)
next
  case (8 finder m_it)
  then show ?case
    by (auto simp: Paren.psimps split: list.splits if_splits sum.splits prod.splits; force)
next
  case (9 finder m_it)
  then show ?case by (simp add: Toplevel.psimps)
qed

termination Atom
proof (relation "measures
    [case_sum (case_sum (\<lambda>(f, ts). length ts)
                 (case_sum (\<lambda>(f, ts). length ts) (\<lambda>(f, ts). length ts)))
       (case_sum (\<lambda>(f, e, ts). length ts)
          (case_sum (\<lambda>(f, ts). length ts) (\<lambda>(f, ts). length ts))),
     case_sum (case_sum (\<lambda>x. 0) (case_sum (\<lambda>x. 1) (\<lambda>x. 3)))
       (case_sum (\<lambda>x. 2) (case_sum (\<lambda>x. 5) (\<lambda>x. 4)))]",
    goal_cases)
  case (6 finder m_it b x y)
  then have "length y \<le> length m_it"
    using parser_length_partial(2) [of finder m_it x y] by simp
  then show ?case by auto
next
  case (8 finder e tok m_it b x y xa ya x2 x2a)
  then have "length y \<le> length m_it"
    using parser_length_partial(2) [of finder m_it x y] by simp
  then show ?case by auto
qed auto

text \<open>\<^verbatim>\<open>Parser::Parse\<close>: the result of \<^verbatim>\<open>Toplevel\<close>; the iterator is dropped with the parser.\<close>

definition Parse :: "('d, 'c) ControlFinder \<Rightarrow> 'd Token list \<Rightarrow> fault + ('d, 'c) ParseResult" where
  "Parse finder tokens =
     (case Toplevel finder tokens of Inl f \<Rightarrow> Inl f | Inr (result, m_it) \<Rightarrow> Inr result)"

section \<open>Entry point\<close>

text \<open>
  Modelled from the spec: \<^verbatim>\<open>StripSpaces\<close> of \<^verbatim>\<open>Common/StringUtil.h\<close> is not part of the
  sources at hand. The specification calls its result the trimmed text and calls a text
  whose trimmed form is empty blank or whitespace-only, whitespace being space, tab,
  carriage return and line feed.
\<close>

definition is_whitespace :: "char \<Rightarrow> bool" where
  "is_whitespace c \<longleftrightarrow> c = CHR '' '' \<or> c = CHR 0x09 \<or> c = CHR 0x0A \<or> c = CHR 0x0D"

definition StripSpaces :: "string \<Rightarrow> string" where
  "StripSpaces str = rev (dropWhile is_whitespace (rev (dropWhile is_whitespace str)))"

definition ParseExpressionInner ::
  "'d DeviceQualifierClass \<Rightarrow> string \<Rightarrow> ('d, 'c) ControlFinder \<Rightarrow> fault + ('d, 'c) ParseResult" where
  "ParseExpressionInner dq str finder =
     (if StripSpaces str = [] then Inr \<lparr>status = EmptyExpression, expr = None\<rparr>
      else
        (case Tokenize dq str [] of
           (tokenize_status, tokens) \<Rightarrow>
             if tokenize_status \<noteq> Successful then Inr \<lparr>status = tokenize_status, expr = None\<rparr>
             else Parse finder tokens))"

definition ParseExpression ::
  "'d DeviceQualifierClass \<Rightarrow> string \<Rightarrow> ('d, 'c) ControlFinder \<Rightarrow>
     fault + (ParseStatus \<times> ('d, 'c) Expression option)" where
  "ParseExpression dq str finder =
     (let qualifier = (ControlQualifier_init dq)\<lparr>control_name := str, has_device := False\<rparr>;
          device = FindDevice finder qualifier;
          control = FindControl finder qualifier
      in if control \<noteq> None then
           Inr (Successful, Some (ControlExpression qualifier device control))
         else
           (case ParseExpressionInner dq str finder of
              Inl f \<Rightarrow> Inl f
            | Inr result \<Rightarrow> Inr (status result, expr result)))"

section \<open>Notions used in the properties\<close>

text \<open>
  The characters the lexer has a case for, and the position of a character without one
  outside a quoted region: an even number of backticks precedes it. \<open>unlexable_from\<close> scans
  a text for such a position, from inside or from outside a quoted region.
\<close>

definition lexable_char :: "char \<Rightarrow> bool" where
  "lexable_char c \<longleftrightarrow>
     is_whitespace c \<or> c = CHR ''('' \<or> c = CHR '')'' \<or> c = CHR ''&'' \<or> c = CHR ''|'' \<or>
     c = CHR ''!'' \<or> c = CHR ''+'' \<or> c = CHR ''`'' \<or> isalpha c"

definition unlexable_at :: "string \<Rightarrow> nat \<Rightarrow> bool" where
  "unlexable_at str i \<longleftrightarrow>
     i < length str \<and> even (count_list (take i str) CHR ''`'') \<and> \<not> lexable_char (str ! i)"

fun unlexable_from :: "bool \<Rightarrow> string \<Rightarrow> bool" where
  "unlexable_from quoted [] = False"
| "unlexable_from quoted (c # cs) =
     (if c = CHR ''`'' then unlexable_from (\<not> quoted) cs
      else if quoted then unlexable_from True cs
      else \<not> lexable_char c \<or> unlexable_from False cs)"

text \<open>The qualifier \<^verbatim>\<open>ParseExpression\<close> builds from the whole text for its first lookup.\<close>

definition legacy_qualifier :: "'d DeviceQualifierClass \<Rightarrow> string \<Rightarrow> 'd ControlQualifier" where
  "legacy_qualifier dq str = (ControlQualifier_init dq)\<lparr>control_name := str, has_device := False\<rparr>"

text \<open>
  The token vector \<^verbatim>\<open>Tokenize\<close> hands to the parser ends with the EOF token. A result of a
  parser function is in order when it is a syntax error without a tree or a success with
  a tree built with the parser's operators; a call is in order when it returns such a
  result without a fault and, on success, leaves tokens that still end with EOF.
\<close>

definition ends_with_EOF :: "'d Token list \<Rightarrow> bool" where
  "ends_with_EOF tokens \<longleftrightarrow> tokens \<noteq> [] \<and> type (last tokens) = TOK_EOF"

definition result_ok :: "('d, 'c) ParseResult \<Rightarrow> bool" where
  "result_ok r \<longleftrightarrow>
     (status r = SyntaxError \<and> expr r = None) \<or>
     (status r = Successful \<and> (case expr r of None \<Rightarrow> False | Some e \<Rightarrow> operators_ok e))"

definition call_ok :: "('d, 'c) parser_result \<Rightarrow> bool" where
  "call_ok res =
     (case res of
        Inl f \<Rightarrow> False
      | Inr (r, rest) \<Rightarrow> result_ok r \<and> (if status r = Successful then ends_with_EOF rest else True))"

text \<open>
  The tokens on which the loop of \<^verbatim>\<open>Binary\<close> stops: the first one is not a binary operator.
  The CONTROL tokens of a token list that the finder resolves to a control.
\<close>

definition stops_binary :: "'d Token list \<Rightarrow> bool" where
  "stops_binary m_it = (case m_it of [] \<Rightarrow> False | tok # rest \<Rightarrow> \<not> IsBinaryToken (type tok))"

fun resolved_controls :: "('d, 'c) ControlFinder \<Rightarrow> 'd Token list \<Rightarrow> nat" where
  "resolved_controls finder [] = 0"
| "resolved_controls finder (tok # tokens) =
     (if type tok = TOK_CONTROL \<and> FindControl finder (qualifier tok) \<noteq> None
      then Suc (resolved_controls finder tokens) else resolved_controls finder tokens)"

text \<open>
  \<open>consumes F finder base loop m_it r rest\<close>: the call \<open>F m_it\<close> that returned \<open>r\<close> and left
  \<open>rest\<close> took a prefix \<open>pre\<close> of \<open>m_it\<close>; the tree of \<open>r\<close> counts \<open>base\<close> controls more than
  \<open>pre\<close> has resolved CONTROL tokens; and \<open>F\<close> returns \<open>r\<close> on \<open>pre\<close> followed by any other
  tokens (for a function that ends in the loop of \<^verbatim>\<open>Binary\<close>: by tokens on which the loop
  stops).
\<close>

definition consumes ::
  "('d Token list \<Rightarrow> ('d, 'c) parser_result) \<Rightarrow> ('d, 'c) ControlFinder \<Rightarrow> int \<Rightarrow> bool \<Rightarrow>
     'd Token list \<Rightarrow> ('d, 'c) ParseResult \<Rightarrow> 'd Token list \<Rightarrow> bool" where
  "consumes F finder base loop m_it r rest \<longleftrightarrow>
     (\<exists>pre. m_it = pre @ rest \<and> (loop \<or> pre \<noteq> []) \<and>
        (\<forall>e. expr r = Some e \<longrightarrow>
           CountNumControls e = base + int (resolved_controls finder pre)) \<and>
        (\<forall>rest'. (loop \<longrightarrow> stops_binary rest') \<longrightarrow> F (pre @ rest') = Inr (r, rest')))"

definition controls_so_far :: "('d, 'c) Expression option \<Rightarrow> int" where
  "controls_so_far e = (case e of None \<Rightarrow> 0 | Some lhs \<Rightarrow> CountNumControls lhs)"

text \<open>The number of CONTROL tokens of a token list.\<close>

fun control_tokens :: "'d Token list \<Rightarrow> nat" where
  "control_tokens [] = 0"
| "control_tokens (tok # tokens) =
     (if type tok = TOK_CONTROL then Suc (control_tokens tokens) else control_tokens tokens)"

abbreviation ok :: "('d, 'c) Expression \<Rightarrow> ('d, 'c) ParseResult" where
  "ok e \<equiv> \<lparr>status = Successful, expr = Some e\<rparr>"









section \<open>Example devices\<close>

text \<open>
  An instance of the parameters, for the examples: device qualifiers that are the string
  they were read from, a finder over a container with the one device \<^verbatim>\<open>pad\<close>, and a finder
  over an empty container.
\<close>

definition string_qualifiers :: "string DeviceQualifierClass" where
  "string_qualifiers = \<lparr>dq_default = [], dq_FromString = (\<lambda>s. s), dq_ToString = (\<lambda>d. d)\<rparr>"

definition pad :: "nat Device" where
  "pad = \<lparr>FindInput = map_of [(''A'', 0), (''B'', 1), (''A B'', 2), (''A$'', 3)],
          FindOutput = map_of [(''Motor'', 4)]\<rparr>"

definition pad_finder :: "(string, nat) ControlFinder" where
  "pad_finder =
     \<lparr>container = (\<lambda>d. if d = ''pad'' then Some pad else None), default_device = ''pad'',
      is_input = True\<rparr>"

definition no_devices :: "(string, nat) ControlFinder" where
  "no_devices = \<lparr>container = (\<lambda>d. None), default_device = ''pad'', is_input = True\<rparr>"

definition control_of :: "string \<Rightarrow> string ControlQualifier" where
  "control_of name = \<lparr>has_device = False, device_qualifier = [], control_name = name\<rparr>"

section \<open>Unfolding the entry point and the examples\<close>

lemma ParseExpression_unfold:
  "ParseExpression dq str finder =
     (case FindControl finder (legacy_qualifier dq str) of
        Some c \<Rightarrow>
          Inr (Successful,
               Some (ControlExpression (legacy_qualifier dq str)
                       (FindDevice finder (legacy_qualifier dq str)) (Some c)))
      | None \<Rightarrow>
          (case ParseExpressionInner dq str finder of
             Inl f \<Rightarrow> Inl f
           | Inr result \<Rightarrow> Inr (status result, expr result)))"
  by (auto simp: ParseExpression_def legacy_qualifier_def Let_def split: option.splits)

lemmas lexer_eval =
  Tokenize.simps NextToken_def GetBarewordsControl_def GetFullyQualifiedControl_def isalpha_def
  char_positive_def Token1_def Token2_def ControlQualifier_init_def

lemmas finder_eval =
  FindControl_def FindDevice_def pad_finder_def pad_def no_devices_def control_of_def
  string_qualifiers_def legacy_qualifier_def ControlQualifier_init_def

section \<open>Evaluation\<close>

lemma IsBinaryToken_cases:
  "IsBinaryToken op \<longleftrightarrow> op = TOK_AND \<or> op = TOK_OR \<or> op = TOK_ADD"
  by (cases op) simp_all

lemma IsUnaryExpression_cases: "IsUnaryExpression op \<longleftrightarrow> op = TOK_NOT"
  by (cases op) simp_all

lemma GetValue_in_range:
  assumes "operators_ok e" and "\<forall>c\<in>set (bound_controls e). 0 \<le> st c \<and> st c \<le> 1"
  shows "\<exists>v. GetValue st e = Some v \<and> 0 \<le> v \<and> v \<le> 1"
  using assms
proof (induction e)
  case (ControlExpression q device control)
  then show ?case by (cases control) simp_all
next
  case (BinaryExpression op lhs rhs)
  from BinaryExpression.prems have okl: "operators_ok lhs" and okr: "operators_ok rhs"
    and rl: "\<forall>c\<in>set (bound_controls lhs). 0 \<le> st c \<and> st c \<le> 1"
    and rr: "\<forall>c\<in>set (bound_controls rhs). 0 \<le> st c \<and> st c \<le> 1"
    by simp_all
  from BinaryExpression.IH(1) [OF okl rl] obtain a where
    a: "GetValue st lhs = Some a" "0 \<le> a" "a \<le> 1" by blast
  from BinaryExpression.IH(2) [OF okr rr] obtain b where
    b: "GetValue st rhs = Some b" "0 \<le> b" "b \<le> 1" by blast
  from BinaryExpression.prems(1) have "op = TOK_AND \<or> op = TOK_OR \<or> op = TOK_ADD"
    by (simp add: IsBinaryToken_cases)
  then show ?case
  proof (elim disjE)
    assume "op = TOK_AND"
    with a b show ?case by simp
  next
    assume "op = TOK_OR"
    with a b show ?case by (simp add: le_max_iff_disj)
  next
    assume "op = TOK_ADD"
    with a b show ?case by simp
  qed
next
  case (UnaryExpression op inner)
  from UnaryExpression.prems have oki: "operators_ok inner"
    and ri: "\<forall>c\<in>set (bound_controls inner). 0 \<le> st c \<and> st c \<le> 1"
    by simp_all
  from UnaryExpression.IH [OF oki ri] obtain a where
    a: "GetValue st inner = Some a" "0 \<le> a" "a \<le> 1" by blast
  from UnaryExpression.prems(1) have "op = TOK_NOT"
    by (simp add: IsUnaryExpression_cases)
  with a show ?case by simp
qed


text \<open>
  Claim C1. On a tree built with the parser's operators whose bound controls all read a
  value in [0,1], \<open>GetValue\<close> returns a value in [0,1]; at a binary node it is the minimum
  of the two child values for AND, their maximum for OR and the minimum of their sum and 1
  for ADD, and at a NOT node it is 1 minus the child value.
\<close>

theorem GetValue_numeric_laws:
  assumes "operators_ok e" and "\<forall>c\<in>set (bound_controls e). 0 \<le> st c \<and> st c \<le> 1"
  shows "\<exists>v. GetValue st e = Some v \<and> 0 \<le> v \<and> v \<le> 1 \<and>
    (case e of
       ControlExpression q device control \<Rightarrow> True
     | BinaryExpression op lhs rhs \<Rightarrow>
         (\<exists>a b. GetValue st lhs = Some a \<and> GetValue st rhs = Some b \<and> 0 \<le> a \<and> a \<le> 1 \<and>
            0 \<le> b \<and> b \<le> 1 \<and>
            (op = TOK_AND \<and> v = min a b \<or> op = TOK_OR \<and> v = max a b \<or>
             op = TOK_ADD \<and> v = min (a + b) 1))
     | UnaryExpression op inner \<Rightarrow>
         (\<exists>a. GetValue st inner = Some a \<and> 0 \<le> a \<and> a \<le> 1 \<and> op = TOK_NOT \<and> v = 1 - a))"
proof -
  from GetValue_in_range [OF assms] obtain v where
    v: "GetValue st e = Some v" "0 \<le> v" "v \<le> 1"
    by blast
  show ?thesis
  proof (cases e)
    case (ControlExpression q device control)
    with v show ?thesis by simp
  next
    case (BinaryExpression op lhs rhs)
    from assms have okl: "operators_ok lhs" and okr: "operators_ok rhs"
      and rl: "\<forall>c\<in>set (bound_controls lhs). 0 \<le> st c \<and> st c \<le> 1"
      and rr: "\<forall>c\<in>set (bound_controls rhs). 0 \<le> st c \<and> st c \<le> 1"
      unfolding BinaryExpression by simp_all
    from GetValue_in_range [OF okl rl] obtain a where
      a: "GetValue st lhs = Some a" "0 \<le> a" "a \<le> 1" by blast
    from GetValue_in_range [OF okr rr] obtain b where
      b: "GetValue st rhs = Some b" "0 \<le> b" "b \<le> 1" by blast
    from assms(1) have "op = TOK_AND \<or> op = TOK_OR \<or> op = TOK_ADD"
      unfolding BinaryExpression by (simp add: IsBinaryToken_cases)
    then show ?thesis
    proof (elim disjE)
      assume "op = TOK_AND"
      with a b v show ?thesis unfolding BinaryExpression by simp
    next
      assume "op = TOK_OR"
      with a b v show ?thesis unfolding BinaryExpression by simp
    next
      assume "op = TOK_ADD"
      with a b v show ?thesis unfolding BinaryExpression by simp
    qed
  next
    case (UnaryExpression op inner)
    from assms have oki: "operators_ok inner"
      and ri: "\<forall>c\<in>set (bound_controls inner). 0 \<le> st c \<and> st c \<le> 1"
      unfolding UnaryExpression by simp_all
    from GetValue_in_range [OF oki ri] obtain a where
      a: "GetValue st inner = Some a" "0 \<le> a" "a \<le> 1" by blast
    from assms(1) have "op = TOK_NOT"
      unfolding UnaryExpression by (simp add: IsUnaryExpression_cases)
    with a v show ?thesis unfolding UnaryExpression by simp
  qed
qed

theorem GetValue_numeric_laws_witness:
  "operators_ok (BinaryExpression TOK_ADD (ControlExpression (control_of ''A'') (Some pad) (Some 0))
       (UnaryExpression TOK_NOT (ControlExpression (control_of ''B'') (Some pad) (Some (1::nat))))) \<and>
   list_all (\<lambda>c. 0 \<le> (if c = 0 then 7 / 10 else 4 / 10 :: real) \<and>
                (if c = 0 then 7 / 10 else 4 / 10 :: real) \<le> 1)
     (bound_controls (BinaryExpression TOK_ADD (ControlExpression (control_of ''A'') (Some pad) (Some 0))
       (UnaryExpression TOK_NOT (ControlExpression (control_of ''B'') (Some pad) (Some (1::nat)))))) \<and>
   GetValue (\<lambda>c. if c = 0 then 7 / 10 else 4 / 10)
     (BinaryExpression TOK_ADD (ControlExpression (control_of ''A'') (Some pad) (Some 0))
       (UnaryExpression TOK_NOT (ControlExpression (control_of ''B'') (Some pad) (Some (1::nat))))) =
     Some 1"
  using GetValue_numeric_laws [of
     "BinaryExpression TOK_ADD (ControlExpression (control_of ''A'') (Some pad) (Some 0))
       (UnaryExpression TOK_NOT (ControlExpression (control_of ''B'') (Some pad) (Some (1::nat))))"
     "\<lambda>c. if c = 0 then 7 / 10 else 4 / 10"]
  by simp

text \<open>
  Claim C4. \<open>SetValue\<close> on a binary node, whatever its operator, is \<open>SetValue\<close> of the same
  value on the left child and then on the right child; on a NOT node it is \<open>SetValue\<close> of
  1 minus the value on the child. On bound leaves: both controls of a binary node receive
  the value unchanged, the control under a NOT receives 1 minus the value.
\<close>

theorem SetValue_write_semantics:
  "SetValue (BinaryExpression op l r) v s =
     (case SetValue l v s of None \<Rightarrow> None | Some s' \<Rightarrow> SetValue r v s') \<and>
   SetValue (UnaryExpression TOK_NOT i) v s = SetValue i (1 - v) s \<and>
   SetValue (BinaryExpression op (ControlExpression q1 d1 (Some a)) (ControlExpression q2 d2 (Some b)))
       v s = Some (s(a := v, b := v)) \<and>
   SetValue (UnaryExpression TOK_NOT (ControlExpression q d (Some a))) v s = Some (s(a := 1 - v))"
  by simp

theorem SetValue_write_semantics_witness:
  "SetValue (BinaryExpression TOK_AND (ControlExpression (control_of ''Motor'') (Some pad) (Some 4))
       (ControlExpression (control_of ''Other'') (Some pad) (Some (5::nat)))) (3 / 10) (\<lambda>c. 0) =
     Some ((\<lambda>c. 0)(4 := 3 / 10, 5 := 3 / 10)) \<and>
   SetValue (UnaryExpression TOK_NOT (ControlExpression (control_of ''Motor'') (Some pad) (Some (4::nat))))
       (3 / 10) (\<lambda>c. 0) = Some ((\<lambda>c. 0)(4 := 1 - 3 / 10))"
  using SetValue_write_semantics [of TOK_AND _ _ "3 / 10" "\<lambda>c. 0" _ "control_of ''Motor''" "Some pad"
      "4::nat" "control_of ''Other''" "Some pad" 5 "control_of ''Motor''" "Some pad"]
  by simp

section \<open>Lexer: backtick-quoted control references\<close>

lemma FetchBacktickString_skip:
  "\<forall>c\<in>set a. c \<noteq> CHR ''`'' \<and> c \<noteq> d \<Longrightarrow>
     FetchBacktickString d val (a @ rest) = FetchBacktickString d (val @ a) rest"
  by (induction a arbitrary: val) simp_all

lemma char_positive_zero: "\<not> char_positive (CHR 0x00)"
  by (simp add: char_positive_def)

lemma FetchBacktickString_no_delim:
  "CHR ''`'' \<notin> set a \<Longrightarrow>
     FetchBacktickString (CHR 0x00) val (a @ rest) = FetchBacktickString (CHR 0x00) (val @ a) rest"
  by (induction a arbitrary: val) (auto simp: char_positive_zero)

lemma char_positive_colon: "char_positive CHR '':''"
  by (simp add: char_positive_def)

lemma Fetch_colon_closed:
  "CHR ''`'' \<notin> set a \<Longrightarrow> CHR '':'' \<notin> set a \<Longrightarrow>
     FetchBacktickString CHR '':'' [] (a @ CHR ''`'' # rest) = (False, a, rest)"
  using FetchBacktickString_skip [of a "CHR '':''" "[]" "CHR ''`'' # rest"] by auto

lemma Fetch_colon_found:
  "CHR ''`'' \<notin> set a \<Longrightarrow> CHR '':'' \<notin> set a \<Longrightarrow>
     FetchBacktickString CHR '':'' [] (a @ CHR '':'' # rest) = (True, a, rest)"
  using FetchBacktickString_skip [of a "CHR '':''" "[]" "CHR '':'' # rest"]
  by (auto simp: char_positive_colon)

lemma Fetch_colon_end:
  "CHR ''`'' \<notin> set a \<Longrightarrow> CHR '':'' \<notin> set a \<Longrightarrow>
     FetchBacktickString CHR '':'' [] a = (False, a, [])"
  using FetchBacktickString_skip [of a "CHR '':''" "[]" "[]"] by auto

lemma Fetch_zero_closed:
  "CHR ''`'' \<notin> set a \<Longrightarrow>
     FetchBacktickString (CHR 0x00) [] (a @ CHR ''`'' # rest) = (False, a, rest)"
  using FetchBacktickString_no_delim [of a "[]" "CHR ''`'' # rest"] by simp

lemma Fetch_zero_end:
  "CHR ''`'' \<notin> set a \<Longrightarrow> FetchBacktickString (CHR 0x00) [] a = (False, a, [])"
  using FetchBacktickString_no_delim [of a "[]" "[]"] by simp

lemma NextToken_backtick: "NextToken dq (CHR ''`'' # s) = GetFullyQualifiedControl dq s"
  by (simp add: NextToken_def)

lemma GetFullyQualifiedControl_type: "type (fst (GetFullyQualifiedControl dq s)) = TOK_CONTROL"
  by (simp add: GetFullyQualifiedControl_def Token2_def split: prod.splits)

text \<open>
  Claim C9. After an opening backtick: when a colon comes before the closing backtick, the
  text before the colon is made the device qualifier (\<open>has_device\<close> is set) and the text
  after it up to the closing backtick is the control name; when no colon comes, the quoted
  text is the control name and \<open>has_device\<close> stays false; when the input ends before a
  closing backtick, the text collected so far is the token. The token is a CONTROL token
  in every case.
\<close>

theorem backtick_token:
  assumes "CHR ''`'' \<notin> set dv" and "CHR '':'' \<notin> set dv" and "CHR ''`'' \<notin> set nm"
    and "CHR ''`'' \<notin> set nc" and "CHR '':'' \<notin> set nc"
  shows "NextToken dq (''`'' @ dv @ '':'' @ nm @ ''`'' @ rest) =
      (\<lparr>type = TOK_CONTROL,
        qualifier = \<lparr>has_device = True, device_qualifier = dq_FromString dq dv, control_name = nm\<rparr>\<rparr>,
       rest) \<and>
    NextToken dq (''`'' @ nc @ ''`'' @ rest) =
      (\<lparr>type = TOK_CONTROL,
        qualifier = \<lparr>has_device = False, device_qualifier = dq_default dq, control_name = nc\<rparr>\<rparr>,
       rest) \<and>
    NextToken dq (''`'' @ dv @ '':'' @ nm) =
      (\<lparr>type = TOK_CONTROL,
        qualifier = \<lparr>has_device = True, device_qualifier = dq_FromString dq dv, control_name = nm\<rparr>\<rparr>,
       []) \<and>
    NextToken dq (''`'' @ nc) =
      (\<lparr>type = TOK_CONTROL,
        qualifier = \<lparr>has_device = False, device_qualifier = dq_default dq, control_name = nc\<rparr>\<rparr>,
       []) \<and>
    type (fst (NextToken dq (CHR ''`'' # s))) = TOK_CONTROL"
proof -
  have 1: "GetFullyQualifiedControl dq (dv @ CHR '':'' # nm @ CHR ''`'' # rest) =
      (\<lparr>type = TOK_CONTROL,
        qualifier = \<lparr>has_device = True, device_qualifier = dq_FromString dq dv, control_name = nm\<rparr>\<rparr>,
       rest)"
    using assms(1-3)
    by (simp add: GetFullyQualifiedControl_def Fetch_colon_found Fetch_zero_closed Token2_def
        ControlQualifier_init_def)
  have 2: "GetFullyQualifiedControl dq (nc @ CHR ''`'' # rest) =
      (\<lparr>type = TOK_CONTROL,
        qualifier = \<lparr>has_device = False, device_qualifier = dq_default dq, control_name = nc\<rparr>\<rparr>,
       rest)"
    using assms(4,5)
    by (simp add: GetFullyQualifiedControl_def Fetch_colon_closed Token2_def
        ControlQualifier_init_def)
  have 3: "GetFullyQualifiedControl dq (dv @ CHR '':'' # nm) =
      (\<lparr>type = TOK_CONTROL,
        qualifier = \<lparr>has_device = True, device_qualifier = dq_FromString dq dv, control_name = nm\<rparr>\<rparr>,
       [])"
    using assms(1-3)
    by (simp add: GetFullyQualifiedControl_def Fetch_colon_found Fetch_zero_end Token2_def
        ControlQualifier_init_def)
  have 4: "GetFullyQualifiedControl dq nc =
      (\<lparr>type = TOK_CONTROL,
        qualifier = \<lparr>has_device = False, device_qualifier = dq_default dq, control_name = nc\<rparr>\<rparr>,
       [])"
    using assms(4,5)
    by (simp add: GetFullyQualifiedControl_def Fetch_colon_end Token2_def
        ControlQualifier_init_def)
  from 1 2 3 4 show ?thesis
    by (simp add: NextToken_backtick GetFullyQualifiedControl_type)
qed

theorem backtick_token_witness:
  "CHR ''`'' \<notin> set ''Wiimote'' \<and> CHR '':'' \<notin> set ''Wiimote'' \<and> CHR ''`'' \<notin> set ''Pressure:x'' \<and>
   CHR ''`'' \<notin> set ''Button A'' \<and> CHR '':'' \<notin> set ''Button A'' \<and>
   NextToken string_qualifiers ''`Wiimote:Pressure:x` & B'' =
      (\<lparr>type = TOK_CONTROL,
        qualifier = \<lparr>has_device = True, device_qualifier = ''Wiimote'', control_name = ''Pressure:x''\<rparr>\<rparr>,
       '' & B'') \<and>
   NextToken string_qualifiers ''`Button A` & B'' =
      (\<lparr>type = TOK_CONTROL,
        qualifier = \<lparr>has_device = False, device_qualifier = [], control_name = ''Button A''\<rparr>\<rparr>,
       '' & B'') \<and>
   NextToken string_qualifiers ''`Wiimote:Pressure:x'' =
      (\<lparr>type = TOK_CONTROL,
        qualifier = \<lparr>has_device = True, device_qualifier = ''Wiimote'', control_name = ''Pressure:x''\<rparr>\<rparr>,
       []) \<and>
   NextToken string_qualifiers ''`Button A'' =
      (\<lparr>type = TOK_CONTROL,
        qualifier = \<lparr>has_device = False, device_qualifier = [], control_name = ''Button A''\<rparr>\<rparr>,
       [])"
  using backtick_token [of "''Wiimote''" "''Pressure:x''" "''Button A''" string_qualifiers "'' & B''" "[]"]
  by (simp add: string_qualifiers_def)

section \<open>Lexer: characters outside the grammar\<close>

lemma lexable_backtick: "lexable_char CHR ''`''"
  by (simp add: lexable_char_def)

lemma unlexable_at_from:
  "i < length s \<Longrightarrow> \<not> lexable_char (s ! i) \<Longrightarrow> even (count_list (take i s) CHR ''`'') = (\<not> quoted) \<Longrightarrow>
     unlexable_from quoted s"
proof (induction s arbitrary: i quoted)
  case Nil
  then show ?case by simp
next
  case (Cons c cs)
  show ?case
  proof (cases i)
    case 0
    with Cons.prems have "\<not> lexable_char c" and "\<not> quoted" by simp_all
    then show ?thesis using lexable_backtick by auto
  next
    case (Suc j)
    with Cons.prems have j: "j < length cs" "\<not> lexable_char (cs ! j)" by simp_all
    show ?thesis
    proof (cases "c = CHR ''`''")
      case True
      with Cons.prems(3) Suc have "even (count_list (take j cs) CHR ''`'') = (\<not> \<not> quoted)"
        by simp
      from Cons.IH [OF j this] True show ?thesis by simp
    next
      case False
      with Cons.prems(3) Suc have "even (count_list (take j cs) CHR ''`'') = (\<not> quoted)"
        by simp
      from Cons.IH [OF j this] False show ?thesis by (cases quoted) simp_all
    qed
  qed
qed

lemma FetchBacktickString_unlexable:
  "FetchBacktickString d val cs = (found, val', r) \<Longrightarrow> unlexable_from True cs \<Longrightarrow>
     unlexable_from found r"
  by (induction d val cs rule: FetchBacktickString.induct) (auto split: if_splits)

lemma FetchBacktickString_zero_not_found:
  "FetchBacktickString (CHR 0x00) val cs = (found, val', r) \<Longrightarrow> \<not> found"
  by (induction "CHR 0x00" val cs rule: FetchBacktickString.induct)
     (auto simp: char_positive_zero split: if_splits)

lemma GetFullyQualifiedControl_unlexable:
  assumes "unlexable_from True cs"
  shows "unlexable_from False (snd (GetFullyQualifiedControl dq cs))"
proof -
  obtain found val r where f: "FetchBacktickString CHR '':'' [] cs = (found, val, r)"
    by (cases "FetchBacktickString CHR '':'' [] cs") auto
  note fr = FetchBacktickString_unlexable [OF f assms]
  show ?thesis
  proof (cases found)
    case False
    with f fr show ?thesis
      by (simp add: GetFullyQualifiedControl_def)
  next
    case True
    obtain found' val' r' where g: "FetchBacktickString (CHR 0x00) [] r = (found', val', r')"
      by (cases "FetchBacktickString (CHR 0x00) [] r") auto
    from True fr have "unlexable_from True r" by simp
    from FetchBacktickString_unlexable [OF g this] FetchBacktickString_zero_not_found [OF g]
    have "unlexable_from False r'" by simp
    with True f g show ?thesis
      by (simp add: GetFullyQualifiedControl_def)
  qed
qed

lemma isalpha_lexable: "isalpha c \<Longrightarrow> lexable_char c \<and> c \<noteq> CHR ''`''"
  by (auto simp: lexable_char_def isalpha_def)

lemma GetBarewordsControl_loop_unlexable:
  "GetBarewordsControl_loop name cs = (name', r) \<Longrightarrow> unlexable_from False cs \<Longrightarrow>
     unlexable_from False r"
  by (induction name cs rule: GetBarewordsControl_loop.induct)
     (auto split: if_splits dest: isalpha_lexable)

lemma GetBarewordsControl_unlexable:
  "unlexable_from False cs \<Longrightarrow> unlexable_from False (snd (GetBarewordsControl dq c cs))"
  by (auto simp: GetBarewordsControl_def split: prod.splits
      dest: GetBarewordsControl_loop_unlexable)

lemma isalpha_not_special:
  assumes "isalpha c"
  shows "c \<noteq> CHR '' ''" "c \<noteq> CHR 0x09" "c \<noteq> CHR 0x0A" "c \<noteq> CHR 0x0D" "c \<noteq> CHR ''(''"
    "c \<noteq> CHR '')''" "c \<noteq> CHR ''&''" "c \<noteq> CHR ''|''" "c \<noteq> CHR ''!''" "c \<noteq> CHR ''+''"
    "c \<noteq> CHR ''`''"
  using assms by (auto simp: isalpha_def)

lemma NextToken_alpha: "isalpha c \<Longrightarrow> NextToken dq (c # cs) = GetBarewordsControl dq c cs"
  by (simp add: NextToken_def isalpha_not_special)

lemma NextToken_invalid:
  "\<not> lexable_char c \<Longrightarrow> NextToken dq (c # cs) = (Token1 dq TOK_INVALID, cs)"
  by (simp add: NextToken_def lexable_char_def is_whitespace_def)

lemma NextToken_single:
  assumes "lexable_char c" and "c \<noteq> CHR ''`''" and "\<not> isalpha c"
  shows "snd (NextToken dq (c # cs)) = cs \<and> type (fst (NextToken dq (c # cs))) \<noteq> TOK_EOF \<and>
    type (fst (NextToken dq (c # cs))) \<noteq> TOK_INVALID \<and>
    type (fst (NextToken dq (c # cs))) \<noteq> TOK_CONTROL"
proof -
  from assms have "is_whitespace c \<or> c = CHR ''('' \<or> c = CHR '')'' \<or> c = CHR ''&'' \<or>
      c = CHR ''|'' \<or> c = CHR ''!'' \<or> c = CHR ''+''"
    by (simp add: lexable_char_def)
  then show ?thesis
  proof (elim disjE)
    assume "is_whitespace c"
    then show ?thesis by (simp add: NextToken_def is_whitespace_def Token1_def)
  qed (simp_all add: NextToken_def Token1_def)
qed

lemma GetBarewordsControl_type: "type (fst (GetBarewordsControl dq c cs)) = TOK_CONTROL"
  by (simp add: GetBarewordsControl_def Token2_def split: prod.splits)

lemma NextToken_unlexable:
  assumes "NextToken dq s = (tok, s')" and "unlexable_from False s"
  shows "type tok = TOK_INVALID \<or> (type tok \<noteq> TOK_EOF \<and> unlexable_from False s')"
proof (cases s)
  case Nil
  with assms show ?thesis by simp
next
  case (Cons c cs)
  show ?thesis
  proof (cases "c = CHR ''`''")
    case True
    with assms Cons have "unlexable_from True cs" by simp
    from GetFullyQualifiedControl_unlexable [OF this, of dq] assms(1) Cons True
    show ?thesis
      using GetFullyQualifiedControl_type [of dq cs]
      by (simp add: NextToken_backtick)
  next
    case nbt: False
    show ?thesis
    proof (cases "lexable_char c")
      case False
      with assms(1) Cons show ?thesis
        by (auto simp: NextToken_invalid Token1_def)
    next
      case True
      with assms(2) Cons nbt have cs: "unlexable_from False cs" by simp
      show ?thesis
      proof (cases "isalpha c")
        case True
        with GetBarewordsControl_unlexable [OF cs, of dq c] GetBarewordsControl_type [of dq c cs]
          assms(1) Cons
        show ?thesis by (simp add: NextToken_alpha)
      next
        case False
        from NextToken_single [OF \<open>lexable_char c\<close> nbt False, of dq cs] assms(1) Cons cs
        show ?thesis by simp
      qed
    qed
  qed
qed

lemma Tokenize_unlexable:
  "unlexable_from False s \<Longrightarrow> Tokenize dq s tokens = (SyntaxError, [])"
proof (induction dq s tokens rule: Tokenize.induct)
  case (1 dq it tokens)
  obtain tok it' where nt: "NextToken dq it = (tok, it')"
    by (cases "NextToken dq it") auto
  from NextToken_unlexable [OF nt "1.prems"]
  have c: "type tok = TOK_INVALID \<or> (type tok \<noteq> TOK_EOF \<and> unlexable_from False it')" .
  show ?case
  proof (cases "type tok = TOK_DISCARD")
    case True
    with c have "unlexable_from False it'" by simp
    from "1.IH"(1) [OF nt [symmetric] True this] nt True show ?thesis
      by (simp add: Tokenize.simps [of dq it])
  next
    case nd: False
    show ?thesis
    proof (cases "type tok = TOK_INVALID")
      case True
      with nt show ?thesis by (simp add: Tokenize.simps [of dq it])
    next
      case False
      with c have ne: "type tok \<noteq> TOK_EOF" and u: "unlexable_from False it'" by simp_all
      from "1.IH"(2) [OF nt [symmetric] nd False ne u] nt nd False ne show ?thesis
        by (simp add: Tokenize.simps [of dq it])
    qed
  qed
qed

lemma StripSpaces_nonempty:
  assumes "c \<in> set str" and "\<not> is_whitespace c"
  shows "StripSpaces str \<noteq> []"
proof -
  let ?x = "dropWhile is_whitespace str"
  from assms have x: "?x \<noteq> []" by (auto simp: dropWhile_eq_Nil_conv)
  then have "\<not> is_whitespace (hd ?x)" by (rule hd_dropWhile)
  moreover from x have "hd ?x \<in> set (rev ?x)" by simp
  ultimately have "dropWhile is_whitespace (rev ?x) \<noteq> []"
    by (auto simp: dropWhile_eq_Nil_conv)
  then show ?thesis by (simp add: StripSpaces_def)
qed

text \<open>
  Claim C8. When the text has, outside a backtick-quoted region, a character that is not
  whitespace, an operator, a parenthesis, a backtick or a letter, \<open>NextToken\<close> at that
  character is INVALID, \<open>Tokenize\<close> returns SyntaxError with an empty token vector whatever
  it had collected, and the parse that runs the lexer (\<open>ParseExpressionInner\<close>, and
  \<open>ParseExpression\<close> when its first lookup of the whole text finds no control) returns
  SyntaxError and no tree.
\<close>

theorem unlexable_character_syntax_error:
  assumes "unlexable_at str i"
  shows "NextToken dq (drop i str) = (Token1 dq TOK_INVALID, drop (Suc i) str) \<and>
    Tokenize dq str tokens = (SyntaxError, []) \<and>
    ParseExpressionInner dq str finder = Inr \<lparr>status = SyntaxError, expr = None\<rparr> \<and>
    (FindControl finder (legacy_qualifier dq str) = None \<longrightarrow>
       ParseExpression dq str finder = Inr (SyntaxError, None))"
proof -
  from assms have i: "i < length str" and u: "\<not> lexable_char (str ! i)"
    and e: "even (count_list (take i str) CHR ''`'') = (\<not> False)"
    by (simp_all add: unlexable_at_def)
  from i have "drop i str = str ! i # drop (Suc i) str"
    by (simp add: Cons_nth_drop_Suc)
  with u have nt: "NextToken dq (drop i str) = (Token1 dq TOK_INVALID, drop (Suc i) str)"
    by (simp add: NextToken_invalid)
  from unlexable_at_from [OF i u e] have f: "unlexable_from False str" .
  then have tk: "\<And>tokens. Tokenize dq str tokens = (SyntaxError, [])"
    by (rule Tokenize_unlexable)
  from u have "\<not> is_whitespace (str ! i)" by (simp add: lexable_char_def)
  with i have "StripSpaces str \<noteq> []"
    using StripSpaces_nonempty [of "str ! i" str] by simp
  with tk have inner: "ParseExpressionInner dq str finder = Inr \<lparr>status = SyntaxError, expr = None\<rparr>"
    by (simp add: ParseExpressionInner_def)
  then have "FindControl finder (legacy_qualifier dq str) = None \<longrightarrow>
      ParseExpression dq str finder = Inr (SyntaxError, None)"
    by (simp add: ParseExpression_unfold)
  with nt tk inner show ?thesis by simp
qed

theorem unlexable_character_syntax_error_witness:
  "unlexable_at ''`X` & $'' 6 \<and>
   Tokenize string_qualifiers ''`X` & $'' [Token1 string_qualifiers TOK_LPAREN] = (SyntaxError, []) \<and>
   FindControl pad_finder (legacy_qualifier string_qualifiers ''`X` & $'') = None \<and>
   ParseExpression string_qualifiers ''`X` & $'' pad_finder = Inr (SyntaxError, None)"
proof -
  have u: "unlexable_at ''`X` & $'' 6"
    by (simp add: unlexable_at_def lexable_char_def is_whitespace_def isalpha_def)
  have n: "FindControl pad_finder (legacy_qualifier string_qualifiers ''`X` & $'') = None"
    by (simp add: FindControl_def FindDevice_def pad_finder_def pad_def legacy_qualifier_def
        ControlQualifier_init_def)
  from unlexable_character_syntax_error [OF u, of string_qualifiers
      "[Token1 string_qualifiers TOK_LPAREN]" pad_finder] u n
  show ?thesis by simp
qed

section \<open>The first lookup of \<^verbatim>\<open>ParseExpression\<close>\<close>

text \<open>
  Claim C3, as stated, fails: the text looked up is the text as given, not the trimmed
  text. On \<^verbatim>\<open>"  A B  "\<close> the trimmed text \<^verbatim>\<open>"A B"\<close> names a control of the default device,
  yet the lookup finds nothing, the lexer and the parser run and the result is the
  control \<^verbatim>\<open>A\<close>.
\<close>

theorem legacy_lookup_untrimmed_counterexample:
  "FindControl pad_finder (legacy_qualifier string_qualifiers (StripSpaces ''  A B  '')) = Some 2 \<and>
   FindControl pad_finder (legacy_qualifier string_qualifiers ''  A B  '') = None \<and>
   ParseExpression string_qualifiers ''  A B  '' pad_finder =
     Inr (Successful, Some (ControlExpression (control_of ''A'') (Some pad) (Some 0)))"
proof -
  have 1: "StripSpaces ''  A B  '' = ''A B''"
    by (simp add: StripSpaces_def is_whitespace_def)
  have 2: "FindControl pad_finder (legacy_qualifier string_qualifiers ''A B'') = Some 2"
    by (simp add: finder_eval)
  have 3: "FindControl pad_finder (legacy_qualifier string_qualifiers ''  A B  '') = None"
    by (simp add: finder_eval)
  have 4: "Tokenize string_qualifiers ''  A B  '' [] =
      (Successful, [Token2 TOK_CONTROL (control_of ''A''), Token2 TOK_CONTROL (control_of ''B''),
         Token1 string_qualifiers TOK_EOF])"
    by (simp add: lexer_eval string_qualifiers_def control_of_def)
  have 5: "FindControl pad_finder (control_of ''A'') = Some 0"
      "FindDevice pad_finder (control_of ''A'') = Some pad"
    by (simp_all add: finder_eval)
  have 6: "ParseExpressionInner string_qualifiers ''  A B  '' pad_finder =
      Inr \<lparr>status = Successful, expr = Some (ControlExpression (control_of ''A'') (Some pad) (Some 0))\<rparr>"
    using 1 4 5 by (simp add: ParseExpressionInner_def Parse_def Token2_def Token1_def)
  from 1 2 3 6 show ?thesis by (simp add: ParseExpression_unfold)
qed

text \<open>
  Claim C3, amended. \<open>ParseExpression\<close> first looks the whole text up, exactly as given and
  without trimming, as the name of a control of the finder's default device; when a
  control is found it returns Successful with the single leaf for that name and control,
  whatever the text is: the lexer and the parser are not consulted.
\<close>

theorem legacy_lookup_first:
  assumes "FindControl finder (legacy_qualifier dq str) = Some c"
  shows "ParseExpression dq str finder =
      Inr (Successful,
           Some (ControlExpression (legacy_qualifier dq str)
                   (container finder (default_device finder)) (Some c))) \<and>
    control_name (legacy_qualifier dq str) = str \<and> \<not> has_device (legacy_qualifier dq str) \<and>
    FindDevice finder (legacy_qualifier dq str) = container finder (default_device finder)"
  using assms
  by (simp add: ParseExpression_unfold) (simp add: legacy_qualifier_def FindDevice_def)

theorem legacy_lookup_first_witness:
  "FindControl pad_finder (legacy_qualifier string_qualifiers ''A$'') = Some 3 \<and>
   ParseExpression string_qualifiers ''A$'' pad_finder =
     Inr (Successful, Some (ControlExpression (control_of ''A$'') (Some pad) (Some 3))) \<and>
   Tokenize string_qualifiers ''A$'' [] = (SyntaxError, []) \<and>
   FindControl pad_finder (legacy_qualifier string_qualifiers ''A B'') = Some 2 \<and>
   ParseExpression string_qualifiers ''A B'' pad_finder =
     Inr (Successful, Some (ControlExpression (control_of ''A B'') (Some pad) (Some 2)))"
proof -
  have 1: "FindControl pad_finder (legacy_qualifier string_qualifiers ''A$'') = Some 3"
    by (simp add: finder_eval)
  have 2: "FindControl pad_finder (legacy_qualifier string_qualifiers ''A B'') = Some 2"
    by (simp add: finder_eval)
  have 3: "Tokenize string_qualifiers ''A$'' [] = (SyntaxError, [])"
    by (simp add: lexer_eval)
  have 4: "legacy_qualifier string_qualifiers ''A$'' = control_of ''A$''"
    "legacy_qualifier string_qualifiers ''A B'' = control_of ''A B''"
    "container pad_finder (default_device pad_finder) = Some pad"
    by (simp_all add: finder_eval)
  from legacy_lookup_first [OF 1] legacy_lookup_first [OF 2] 1 2 3 4 show ?thesis
    by simp
qed

section \<open>The parser on a token vector that ends with EOF\<close>

lemma ends_with_EOF_Cons:
  "ends_with_EOF (tok # m_it) \<Longrightarrow> type tok \<noteq> TOK_EOF \<Longrightarrow> ends_with_EOF m_it"
  by (cases m_it) (simp_all add: ends_with_EOF_def)

lemma call_okE:
  assumes "call_ok res"
  obtains r rest where "res = Inr (r, rest)" "result_ok r"
    "status r = Successful \<longrightarrow> ends_with_EOF rest"
  using assms by (auto simp: call_ok_def split: sum.splits prod.splits if_splits)

lemma result_ok_cases:
  assumes "result_ok r"
  obtains (error) "status r = SyntaxError" "expr r = None"
    | (success) e where "status r = Successful" "expr r = Some e" "operators_ok e"
  using assms by (auto simp: result_ok_def split: option.splits)

lemma parser_in_order:
  fixes finder :: "('d, 'c) ControlFinder"
  shows "ends_with_EOF m_it \<Longrightarrow> call_ok (Atom finder m_it)"
    and "ends_with_EOF m_it \<Longrightarrow> call_ok (Unary finder m_it)"
    and "ends_with_EOF m_it \<Longrightarrow> call_ok (Binary finder m_it)"
    and "ends_with_EOF m_it \<Longrightarrow> (case e of None \<Rightarrow> False | Some x \<Rightarrow> operators_ok x) \<Longrightarrow>
           call_ok (Binary_loop finder e m_it)"
    and "ends_with_EOF m_it \<Longrightarrow> call_ok (Paren finder m_it)"
    and "ends_with_EOF m_it \<Longrightarrow> call_ok (Toplevel finder m_it)"
proof (induct finder m_it and finder m_it and finder m_it and finder e m_it and finder m_it
    and finder m_it rule: Atom_Unary_Binary_Binary_loop_Paren_Toplevel.induct)
  case (1 finder)
  then show ?case by (simp add: ends_with_EOF_def)
next
  case (2 finder tok m_it)
  show ?case
  proof (cases "type tok = TOK_CONTROL")
    case True
    with "2.prems" have "ends_with_EOF m_it" by (auto dest: ends_with_EOF_Cons)
    with True show ?thesis by (simp add: call_ok_def result_ok_def)
  next
    case nc: False
    show ?thesis
    proof (cases "type tok = TOK_LPAREN")
      case True
      with "2.prems" have "ends_with_EOF m_it" by (auto dest: ends_with_EOF_Cons)
      from "2.hyps" [OF nc True this] nc True show ?thesis by simp
    next
      case False
      with nc show ?thesis by (simp add: call_ok_def result_ok_def)
    qed
  qed
next
  case (3 finder)
  then show ?case by (simp add: ends_with_EOF_def)
next
  case (4 finder tok m_it)
  show ?case
  proof (cases "IsUnaryExpression (type tok)")
    case True
    then have ty: "type tok = TOK_NOT" by (simp add: IsUnaryExpression_cases)
    with "4.prems" have "ends_with_EOF m_it" by (auto dest: ends_with_EOF_Cons)
    from "4.hyps"(1) [OF True this] obtain r rest where
      a: "Atom finder m_it = Inr (r, rest)" "result_ok r"
        "status r = Successful \<longrightarrow> ends_with_EOF rest"
      by (rule call_okE)
    from a(2) show ?thesis
    proof (cases rule: result_ok_cases)
      case error
      with a True show ?thesis by (simp add: call_ok_def result_ok_def)
    next
      case (success e)
      with a True ty show ?thesis by (simp add: call_ok_def result_ok_def)
    qed
  next
    case False
    from "4.hyps"(2) [OF False "4.prems"] False show ?thesis by simp
  qed
next
  case (5 finder m_it)
  from "5.hyps"(1) [OF "5.prems"] obtain r rest where
    a: "Unary finder m_it = Inr (r, rest)" "result_ok r"
      "status r = Successful \<longrightarrow> ends_with_EOF rest"
    by (rule call_okE)
  from a(2) show ?case
  proof (cases rule: result_ok_cases)
    case error
    with a show ?thesis by (simp add: call_ok_def result_ok_def)
  next
    case (success e)
    with a have "ends_with_EOF rest" by simp
    moreover from success have "status r \<noteq> SyntaxError" by simp
    moreover from success have "case expr r of None \<Rightarrow> False | Some x \<Rightarrow> operators_ok x" by simp
    ultimately have "call_ok (Binary_loop finder (expr r) rest)"
      using "5.hyps"(2) [OF a(1) refl] by simp
    with a success show ?thesis by simp
  qed
next
  case (6 finder e)
  then show ?case by (simp add: ends_with_EOF_def)
next
  case (7 finder e tok m_it)
  from "7.prems"(2) obtain lhs where e: "e = Some lhs" "operators_ok lhs"
    by (cases e) simp_all
  show ?case
  proof (cases "IsBinaryToken (type tok)")
    case True
    then have "type tok \<noteq> TOK_EOF" by (auto simp: IsBinaryToken_cases)
    with "7.prems" have "ends_with_EOF m_it" by (auto dest: ends_with_EOF_Cons)
    from "7.hyps"(1) [OF True this] obtain r rest where
      a: "Unary finder m_it = Inr (r, rest)" "result_ok r"
        "status r = Successful \<longrightarrow> ends_with_EOF rest"
      by (rule call_okE)
    from a(2) show ?thesis
    proof (cases rule: result_ok_cases)
      case error
      with a True show ?thesis by (simp add: call_ok_def result_ok_def)
    next
      case (success rhs)
      with a have "ends_with_EOF rest" by simp
      moreover from success have "status r \<noteq> SyntaxError" by simp
      ultimately have
        "call_ok (Binary_loop finder (Some (BinaryExpression (type tok) lhs rhs)) rest)"
        using "7.hyps"(2) [OF True a(1) refl _ refl, of lhs rhs] e success True by simp
      with a success True e show ?thesis by simp
    qed
  next
    case False
    with "7.prems" e show ?thesis by (simp add: call_ok_def result_ok_def)
  qed
next
  case (8 finder m_it)
  from "8.hyps" [OF "8.prems"] obtain r rest where
    a: "Toplevel finder m_it = Inr (r, rest)" "result_ok r"
      "status r = Successful \<longrightarrow> ends_with_EOF rest"
    by (rule call_okE)
  from a(2) show ?case
  proof (cases rule: result_ok_cases)
    case error
    with a show ?thesis by (simp add: call_ok_def result_ok_def)
  next
    case (success e)
    with a have r: "ends_with_EOF rest" by simp
    then obtain tok rest' where rest: "rest = tok # rest'"
      by (cases rest) (simp_all add: ends_with_EOF_def)
    show ?thesis
    proof (cases "type tok = TOK_RPAREN")
      case True
      with r rest have "ends_with_EOF rest'" by (auto dest: ends_with_EOF_Cons)
      with a success rest True show ?thesis by (simp add: call_ok_def result_ok_def)
    next
      case False
      with a success rest show ?thesis by (simp add: call_ok_def result_ok_def)
    qed
  qed
next
  case (9 finder m_it)
  then show ?case by simp
qed

lemma Tokenize_ends_with_EOF:
  "Tokenize dq s tokens = (Successful, out) \<Longrightarrow> ends_with_EOF out"
proof (induction dq s tokens rule: Tokenize.induct)
  case (1 dq it tokens)
  obtain tok it' where nt: "NextToken dq it = (tok, it')"
    by (cases "NextToken dq it") auto
  show ?case
  proof (cases "type tok = TOK_DISCARD")
    case True
    with "1.prems" nt have "Tokenize dq it' tokens = (Successful, out)"
      by (simp add: Tokenize.simps [of dq it])
    from "1.IH"(1) [OF nt [symmetric] True this] show ?thesis .
  next
    case nd: False
    show ?thesis
    proof (cases "type tok = TOK_INVALID")
      case True
      with "1.prems" nt nd show ?thesis by (simp add: Tokenize.simps [of dq it])
    next
      case ni: False
      show ?thesis
      proof (cases "type tok = TOK_EOF")
        case True
        with "1.prems" nt nd ni have "out = tokens @ [tok]"
          by (simp add: Tokenize.simps [of dq it])
        with True show ?thesis by (simp add: ends_with_EOF_def)
      next
        case False
        with "1.prems" nt nd ni have "Tokenize dq it' (tokens @ [tok]) = (Successful, out)"
          by (simp add: Tokenize.simps [of dq it])
        from "1.IH"(2) [OF nt [symmetric] nd ni False this] show ?thesis .
      qed
    qed
  qed
qed

lemma GetValue_total: "operators_ok e \<Longrightarrow> \<exists>x. GetValue st e = Some x"
proof (induction e)
  case (ControlExpression q device control)
  then show ?case by (cases control) simp_all
next
  case (BinaryExpression op lhs rhs)
  then have "op = TOK_AND \<or> op = TOK_OR \<or> op = TOK_ADD"
    by (simp add: IsBinaryToken_cases)
  with BinaryExpression show ?case by auto
next
  case (UnaryExpression op inner)
  then show ?case by (auto simp: IsUnaryExpression_cases)
qed

lemma SetValue_total: "operators_ok e \<Longrightarrow> \<exists>s'. SetValue e v s = Some s'"
proof (induction e arbitrary: v s)
  case (ControlExpression q device control)
  then show ?case by (cases control) simp_all
next
  case (BinaryExpression op lhs rhs)
  from BinaryExpression.prems BinaryExpression.IH(1) [of v s] obtain s' where
    "SetValue lhs v s = Some s'" by auto
  with BinaryExpression.prems BinaryExpression.IH(2) [of v s'] show ?case by simp
next
  case (UnaryExpression op inner)
  then show ?case by (auto simp: IsUnaryExpression_cases)
qed

lemma ParseExpressionInner_in_order:
  "\<exists>r. ParseExpressionInner dq str finder = Inr r \<and>
     (status r = Successful \<longrightarrow> (\<exists>e. expr r = Some e \<and> operators_ok e)) \<and>
     (status r \<noteq> Successful \<longrightarrow> expr r = None)"
proof (cases "StripSpaces str = []")
  case True
  then show ?thesis by (simp add: ParseExpressionInner_def)
next
  case ne: False
  obtain st tokens where tk: "Tokenize dq str [] = (st, tokens)"
    by (cases "Tokenize dq str []") auto
  show ?thesis
  proof (cases "st = Successful")
    case False
    with ne tk show ?thesis by (simp add: ParseExpressionInner_def)
  next
    case True
    with tk have "ends_with_EOF tokens" by (auto dest: Tokenize_ends_with_EOF)
    from parser_in_order(6) [OF this, of finder] obtain r rest where
      "Toplevel finder tokens = Inr (r, rest)" "result_ok r"
      by (rule call_okE)
    with ne tk True show ?thesis
      by (auto simp: ParseExpressionInner_def Parse_def elim: result_ok_cases)
  qed
qed

lemma ParseExpression_in_order:
  "\<exists>st tree. ParseExpression dq str finder = Inr (st, tree) \<and>
     (st = Successful \<longrightarrow> (\<exists>e. tree = Some e \<and> operators_ok e)) \<and>
     (st \<noteq> Successful \<longrightarrow> tree = None)"
  using ParseExpressionInner_in_order [of dq str finder]
  by (auto simp: ParseExpression_unfold split: option.splits)

text \<open>
  Claim C5. A leaf whose control pointer is null reads 0 and ignores a write. The parse
  of any text returns a status, and when the status is Successful it returns a tree on
  which \<open>GetValue\<close> and \<open>SetValue\<close> return without a failure. A CONTROL token whose control
  the finder does not resolve makes \<open>Atom\<close> return Successful with the leaf of the null
  control.
\<close>

theorem unresolved_reference_neutral:
  "GetValue st (ControlExpression q device None) = Some 0 \<and>
   SetValue (ControlExpression q device None) v s = Some s \<and>
   (\<exists>status tree. ParseExpression dq str finder = Inr (status, tree) \<and>
      (status = Successful \<longrightarrow>
         (\<exists>e x s'. tree = Some e \<and> GetValue st e = Some x \<and> SetValue e v s = Some s'))) \<and>
   (type tok = TOK_CONTROL \<and> FindControl finder (qualifier tok) = None \<longrightarrow>
      Atom finder (tok # m_it) =
        Inr (\<lparr>status = Successful,
              expr = Some (ControlExpression (qualifier tok) (FindDevice finder (qualifier tok))
                             None)\<rparr>, m_it))"
proof -
  from ParseExpression_in_order [of dq str finder] obtain status tree where
    p: "ParseExpression dq str finder = Inr (status, tree)"
      "status = Successful \<longrightarrow> (\<exists>e. tree = Some e \<and> operators_ok e)"
    by blast
  have "status = Successful \<longrightarrow>
      (\<exists>e x s'. tree = Some e \<and> GetValue st e = Some x \<and> SetValue e v s = Some s')"
  proof
    assume "status = Successful"
    with p obtain e where e: "tree = Some e" "operators_ok e" by blast
    from GetValue_total [OF e(2), of st] SetValue_total [OF e(2), of v s] e(1)
    show "\<exists>e x s'. tree = Some e \<and> GetValue st e = Some x \<and> SetValue e v s = Some s'"
      by blast
  qed
  with p(1) show ?thesis by simp
qed

theorem unresolved_reference_neutral_witness:
  "ParseExpression string_qualifiers ''`Nonexistent` | `A`'' pad_finder =
     Inr (Successful,
          Some (BinaryExpression TOK_OR
                  (ControlExpression (control_of ''Nonexistent'') (Some pad) None)
                  (ControlExpression (control_of ''A'') (Some pad) (Some 0)))) \<and>
   GetValue (\<lambda>c. 4 / 10)
     (BinaryExpression TOK_OR
        (ControlExpression (control_of ''Nonexistent'') (Some pad) None)
        (ControlExpression (control_of ''A'') (Some pad) (Some (0::nat)))) = Some (4 / 10) \<and>
   GetValue (\<lambda>c. 4 / 10) (ControlExpression (control_of ''Nonexistent'') (Some pad) (None :: nat option)) =
     Some 0 \<and>
   type (Token2 TOK_CONTROL (control_of ''Nonexistent'')) = TOK_CONTROL \<and>
   FindControl pad_finder (qualifier (Token2 TOK_CONTROL (control_of ''Nonexistent''))) = None \<and>
   Atom pad_finder [Token2 TOK_CONTROL (control_of ''Nonexistent''), Token1 string_qualifiers TOK_EOF] =
     Inr (\<lparr>status = Successful,
           expr = Some (ControlExpression (control_of ''Nonexistent'') (Some pad) None)\<rparr>,
          [Token1 string_qualifiers TOK_EOF])"
proof -
  have 1: "Tokenize string_qualifiers ''`Nonexistent` | `A`'' [] =
      (Successful, [Token2 TOK_CONTROL (control_of ''Nonexistent''), Token1 string_qualifiers TOK_OR,
         Token2 TOK_CONTROL (control_of ''A''), Token1 string_qualifiers TOK_EOF])"
    by (simp add: lexer_eval string_qualifiers_def control_of_def)
  have 2: "FindControl pad_finder (control_of ''A'') = Some 0"
    "FindDevice pad_finder (control_of ''A'') = Some pad"
    "FindControl pad_finder (control_of ''Nonexistent'') = None"
    "FindDevice pad_finder (control_of ''Nonexistent'') = Some pad"
    "FindControl pad_finder (legacy_qualifier string_qualifiers ''`Nonexistent` | `A`'') = None"
    by (simp_all add: finder_eval)
  have 3: "StripSpaces ''`Nonexistent` | `A`'' \<noteq> []"
    by (simp add: StripSpaces_def is_whitespace_def)
  have 4: "ParseExpression string_qualifiers ''`Nonexistent` | `A`'' pad_finder =
     Inr (Successful,
          Some (BinaryExpression TOK_OR
                  (ControlExpression (control_of ''Nonexistent'') (Some pad) None)
                  (ControlExpression (control_of ''A'') (Some pad) (Some 0))))"
    using 1 2 3
    by (simp add: ParseExpression_unfold ParseExpressionInner_def Parse_def Token1_def Token2_def)
  from unresolved_reference_neutral [of "\<lambda>c. 4 / 10" "control_of ''Nonexistent''" "Some pad"
      0 "\<lambda>c. 0" string_qualifiers "''`Nonexistent` | `A`''" pad_finder
      "Token2 TOK_CONTROL (control_of ''Nonexistent'')" "[Token1 string_qualifiers TOK_EOF]"] 2 4
  show ?thesis by (simp add: Token2_def)
qed

section \<open>The tokens a parser function consumes\<close>

lemma parser_status:
  fixes finder :: "('d, 'c) ControlFinder"
  shows "Atom finder m_it = Inr (r, rest) \<Longrightarrow>
      status r \<noteq> EmptyExpression \<and> (status r = Successful \<longrightarrow> expr r \<noteq> None)"
    and "Unary finder m_it = Inr (r, rest) \<Longrightarrow>
      status r \<noteq> EmptyExpression \<and> (status r = Successful \<longrightarrow> expr r \<noteq> None)"
    and "Binary finder m_it = Inr (r, rest) \<Longrightarrow>
      status r \<noteq> EmptyExpression \<and> (status r = Successful \<longrightarrow> expr r \<noteq> None)"
    and "Binary_loop finder e m_it = Inr (r, rest) \<Longrightarrow> e \<noteq> None \<Longrightarrow>
      status r \<noteq> EmptyExpression \<and> (status r = Successful \<longrightarrow> expr r \<noteq> None)"
    and "Paren finder m_it = Inr (r, rest) \<Longrightarrow>
      status r \<noteq> EmptyExpression \<and> (status r = Successful \<longrightarrow> expr r \<noteq> None)"
    and "Toplevel finder m_it = Inr (r, rest) \<Longrightarrow>
      status r \<noteq> EmptyExpression \<and> (status r = Successful \<longrightarrow> expr r \<noteq> None)"
proof (induct finder m_it and finder m_it and finder m_it and finder e m_it and finder m_it
    and finder m_it arbitrary: r rest and r rest and r rest and r rest and r rest and r rest
    rule: Atom_Unary_Binary_Binary_loop_Paren_Toplevel.induct)
  case (2 finder tok m_it)
  show ?case
  proof (cases "type tok = TOK_CONTROL")
    case True
    with "2.prems" show ?thesis by auto
  next
    case nc: False
    show ?thesis
    proof (cases "type tok = TOK_LPAREN")
      case True
      with nc "2.prems" have "Paren finder m_it = Inr (r, rest)" by simp
      from "2.hyps" [OF nc True this] show ?thesis .
    next
      case False
      with nc "2.prems" show ?thesis by auto
    qed
  qed
next
  case (4 finder tok m_it)
  show ?case
  proof (cases "IsUnaryExpression (type tok)")
    case False
    with "4.prems" have "Atom finder (tok # m_it) = Inr (r, rest)" by simp
    from "4.hyps"(2) [OF False this] show ?thesis .
  next
    case True
    with "4.prems" obtain ra resta where a: "Atom finder m_it = Inr (ra, resta)"
      by (cases "Atom finder m_it") auto
    show ?thesis
    proof (cases "status ra = SyntaxError")
      case se: True
      with True a "4.prems" have "r = ra" by simp
      with se show ?thesis by simp
    next
      case False
      with True a "4.prems" show ?thesis by (cases "expr ra") auto
    qed
  qed
next
  case (5 finder m_it)
  from "5.prems" obtain ru restu where u: "Unary finder m_it = Inr (ru, restu)"
    by (cases "Unary finder m_it") auto
  note ih = "5.hyps"(1) [OF u]
  show ?case
  proof (cases "status ru = SyntaxError")
    case True
    with u "5.prems" have "r = ru" by simp
    with True show ?thesis by simp
  next
    case False
    with ih have "status ru = Successful" by (cases "status ru") simp_all
    with ih have ne: "expr ru \<noteq> None" by simp
    from False u "5.prems" have "Binary_loop finder (expr ru) restu = Inr (r, rest)" by simp
    from "5.hyps"(2) [OF u refl False this ne] show ?thesis .
  qed
next
  case (7 finder e tok m_it)
  show ?case
  proof (cases "IsBinaryToken (type tok)")
    case False
    with "7.prems" show ?thesis by auto
  next
    case True
    with "7.prems" obtain ru restu where u: "Unary finder m_it = Inr (ru, restu)"
      by (cases "Unary finder m_it") auto
    show ?thesis
    proof (cases "status ru = SyntaxError")
      case se: True
      with True u "7.prems" have "r = ru" by simp
      with se show ?thesis by simp
    next
      case False
      from "7.prems"(2) obtain lhs where e: "e = Some lhs" by auto
      from False True u "7.prems"(1) e obtain rhs where rhs: "expr ru = Some rhs"
        by (cases "expr ru") auto
      with False True u "7.prems"(1) e
      have "Binary_loop finder (Some (BinaryExpression (type tok) lhs rhs)) restu = Inr (r, rest)"
        by simp
      from "7.hyps"(2) [OF True u refl False _ refl refl this] e rhs show ?thesis by simp
    qed
  qed
next
  case (8 finder m_it)
  from "8.prems" obtain rt restt where t: "Toplevel finder m_it = Inr (rt, restt)"
    by (cases "Toplevel finder m_it") auto
  note ih = "8.hyps" [OF t]
  show ?case
  proof (cases "status rt = Successful")
    case False
    with t "8.prems" have "r = rt" by simp
    with ih show ?thesis by simp
  next
    case True
    with t "8.prems" obtain tok rest' where "restt = tok # rest'"
      by (cases restt) auto
    with True t "8.prems" ih show ?thesis by (auto split: if_splits)
  qed
qed simp_all

lemma consumesI:
  assumes "m_it = pre @ rest" and "loop \<or> pre \<noteq> []"
    and "\<And>e. expr r = Some e \<Longrightarrow> CountNumControls e = base + int (resolved_controls finder pre)"
    and "\<And>rest'. (loop \<Longrightarrow> stops_binary rest') \<Longrightarrow> F (pre @ rest') = Inr (r, rest')"
  shows "consumes F finder base loop m_it r rest"
  unfolding consumes_def using assms by blast

lemma consumesE:
  assumes "consumes F finder base loop m_it r rest"
  obtains pre where "m_it = pre @ rest" and "loop \<or> pre \<noteq> []"
    and "\<forall>e. expr r = Some e \<longrightarrow> CountNumControls e = base + int (resolved_controls finder pre)"
    and "\<forall>rest'. (loop \<longrightarrow> stops_binary rest') \<longrightarrow> F (pre @ rest') = Inr (r, rest')"
  using assms unfolding consumes_def by blast

lemma resolved_controls_append:
  "resolved_controls finder (a @ b) = resolved_controls finder a + resolved_controls finder b"
  by (induction a) simp_all

lemma stops_binary_Cons: "stops_binary (tok # m_it) = (\<not> IsBinaryToken (type tok))"
  by (simp add: stops_binary_def)

lemma parser_consumes:
  fixes finder :: "('d, 'c) ControlFinder"
  shows "Atom finder m_it = Inr (r, rest) \<Longrightarrow> status r = Successful \<Longrightarrow>
      consumes (Atom finder) finder 0 False m_it r rest"
    and "Unary finder m_it = Inr (r, rest) \<Longrightarrow> status r = Successful \<Longrightarrow>
      consumes (Unary finder) finder 0 False m_it r rest"
    and "Binary finder m_it = Inr (r, rest) \<Longrightarrow> status r = Successful \<Longrightarrow>
      consumes (Binary finder) finder 0 True m_it r rest"
    and "Binary_loop finder e m_it = Inr (r, rest) \<Longrightarrow> status r = Successful \<Longrightarrow>
      consumes (Binary_loop finder e) finder (controls_so_far e) True m_it r rest"
    and "Paren finder m_it = Inr (r, rest) \<Longrightarrow> status r = Successful \<Longrightarrow>
      consumes (Paren finder) finder 0 False m_it r rest"
    and "Toplevel finder m_it = Inr (r, rest) \<Longrightarrow> status r = Successful \<Longrightarrow>
      consumes (Toplevel finder) finder 0 True m_it r rest"
proof (induct finder m_it and finder m_it and finder m_it and finder e m_it and finder m_it
    and finder m_it arbitrary: r rest and r rest and r rest and r rest and r rest and r rest
    rule: Atom_Unary_Binary_Binary_loop_Paren_Toplevel.induct)
  case (1 finder)
  then show ?case by simp
next
  case (2 finder tok m_it)
  show ?case
  proof (cases "type tok = TOK_CONTROL")
    case True
    with "2.prems" have r: "r = ok (ControlExpression (qualifier tok) (FindDevice finder (qualifier tok))
        (FindControl finder (qualifier tok)))" and rest: "rest = m_it"
      by simp_all
    show ?thesis
    proof (rule consumesI [where pre = "[tok]"])
      show "tok # m_it = [tok] @ rest" using rest by simp
      show "False \<or> [tok] \<noteq> []" by simp
      show "CountNumControls e = 0 + int (resolved_controls finder [tok])" if "expr r = Some e" for e
        using that r True by (cases "FindControl finder (qualifier tok)") auto
      show "Atom finder ([tok] @ rest') = Inr (r, rest')" for rest'
        using r True by simp
    qed
  next
    case nc: False
    show ?thesis
    proof (cases "type tok = TOK_LPAREN")
      case False
      with nc "2.prems" show ?thesis by auto
    next
      case True
      with nc "2.prems" have p: "Paren finder m_it = Inr (r, rest)" by simp
      from "2.hyps" [OF nc True p "2.prems"(2)] obtain pre where
        pre: "m_it = pre @ rest"
          "\<forall>e. expr r = Some e \<longrightarrow> CountNumControls e = 0 + int (resolved_controls finder pre)"
          "\<forall>rest'. (False \<longrightarrow> stops_binary rest') \<longrightarrow> Paren finder (pre @ rest') = Inr (r, rest')"
        by (rule consumesE)
      show ?thesis
      proof (rule consumesI [where pre = "tok # pre"])
        show "tok # m_it = (tok # pre) @ rest" using pre(1) by simp
        show "False \<or> tok # pre \<noteq> []" by simp
        show "CountNumControls e = 0 + int (resolved_controls finder (tok # pre))"
          if "expr r = Some e" for e
          using that pre(2) nc by simp
        show "Atom finder ((tok # pre) @ rest') = Inr (r, rest')" for rest'
          using pre(3) nc True by simp
      qed
    qed
  qed
next
  case (3 finder)
  then show ?case by simp
next
  case (4 finder tok m_it)
  show ?case
  proof (cases "IsUnaryExpression (type tok)")
    case False
    with "4.prems" have a: "Atom finder (tok # m_it) = Inr (r, rest)" by simp
    from "4.hyps"(2) [OF False a "4.prems"(2)] obtain pre where
      pre: "tok # m_it = pre @ rest" "False \<or> pre \<noteq> []"
        "\<forall>e. expr r = Some e \<longrightarrow> CountNumControls e = 0 + int (resolved_controls finder pre)"
        "\<forall>rest'. (False \<longrightarrow> stops_binary rest') \<longrightarrow> Atom finder (pre @ rest') = Inr (r, rest')"
      by (rule consumesE)
    from pre(1,2) obtain pre' where pre': "pre = tok # pre'"
      by (cases pre) auto
    show ?thesis
    proof (rule consumesI [where pre = pre])
      show "tok # m_it = pre @ rest" by (rule pre(1))
      show "False \<or> pre \<noteq> []" by (rule pre(2))
      show "CountNumControls e = 0 + int (resolved_controls finder pre)" if "expr r = Some e" for e
        using that pre(3) by simp
      show "Unary finder (pre @ rest') = Inr (r, rest')" for rest'
        using pre(4) pre' False by simp
    qed
  next
    case True
    then have ty: "type tok = TOK_NOT" by (simp add: IsUnaryExpression_cases)
    from True "4.prems" obtain ra resta where a: "Atom finder m_it = Inr (ra, resta)"
      by (cases "Atom finder m_it") auto
    have nse: "status ra \<noteq> SyntaxError"
    proof
      assume "status ra = SyntaxError"
      with True a "4.prems" show False by simp
    qed
    with parser_status(1) [OF a] have sa: "status ra = Successful"
      by (cases "status ra") simp_all
    with parser_status(1) [OF a] obtain inner where inner: "expr ra = Some inner" by auto
    from True a nse inner "4.prems"(1) have r: "r = ok (UnaryExpression (type tok) inner)"
      and rest: "rest = resta" by simp_all
    from "4.hyps"(1) [OF True a sa] obtain pre where
      pre: "m_it = pre @ resta"
        "\<forall>e. expr ra = Some e \<longrightarrow> CountNumControls e = 0 + int (resolved_controls finder pre)"
        "\<forall>rest'. (False \<longrightarrow> stops_binary rest') \<longrightarrow> Atom finder (pre @ rest') = Inr (ra, rest')"
      by (rule consumesE)
    show ?thesis
    proof (rule consumesI [where pre = "tok # pre"])
      show "tok # m_it = (tok # pre) @ rest" using pre(1) rest by simp
      show "False \<or> tok # pre \<noteq> []" by simp
      show "CountNumControls e = 0 + int (resolved_controls finder (tok # pre))"
        if "expr r = Some e" for e
        using that pre(2) inner r ty by auto
      show "Unary finder ((tok # pre) @ rest') = Inr (r, rest')" for rest'
        using pre(3) True nse inner r by simp
    qed
  qed
next
  case (5 finder m_it)
  from "5.prems" obtain ru restu where u: "Unary finder m_it = Inr (ru, restu)"
    by (cases "Unary finder m_it") auto
  have nse: "status ru \<noteq> SyntaxError"
  proof
    assume "status ru = SyntaxError"
    with u "5.prems" show False by simp
  qed
  with parser_status(2) [OF u] have su: "status ru = Successful"
    by (cases "status ru") simp_all
  with parser_status(2) [OF u] obtain a where a: "expr ru = Some a" by auto
  from nse u "5.prems"(1) have l: "Binary_loop finder (expr ru) restu = Inr (r, rest)" by simp
  from "5.hyps"(1) [OF u su] obtain pre1 where
    pre1: "m_it = pre1 @ restu"
      "\<forall>e. expr ru = Some e \<longrightarrow> CountNumControls e = 0 + int (resolved_controls finder pre1)"
      "\<forall>rest'. (False \<longrightarrow> stops_binary rest') \<longrightarrow> Unary finder (pre1 @ rest') = Inr (ru, rest')"
    by (rule consumesE)
  from "5.hyps"(2) [OF u refl nse l "5.prems"(2)] obtain pre2 where
    pre2: "restu = pre2 @ rest"
      "\<forall>e. expr r = Some e \<longrightarrow>
         CountNumControls e = controls_so_far (expr ru) + int (resolved_controls finder pre2)"
      "\<forall>rest'. (True \<longrightarrow> stops_binary rest') \<longrightarrow>
         Binary_loop finder (expr ru) (pre2 @ rest') = Inr (r, rest')"
    by (rule consumesE)
  show ?case
  proof (rule consumesI [where pre = "pre1 @ pre2"])
    show "m_it = (pre1 @ pre2) @ rest" using pre1(1) pre2(1) by simp
    show "True \<or> pre1 @ pre2 \<noteq> []" by simp
    show "CountNumControls e = 0 + int (resolved_controls finder (pre1 @ pre2))"
      if "expr r = Some e" for e
      using that pre1(2) pre2(2) a by (simp add: controls_so_far_def resolved_controls_append)
    show "Binary finder ((pre1 @ pre2) @ rest') = Inr (r, rest')"
      if "True \<Longrightarrow> stops_binary rest'" for rest'
      using that pre1(3) pre2(3) nse by simp
  qed
next
  case (6 finder e)
  then show ?case by simp
next
  case (7 finder e tok m_it)
  show ?case
  proof (cases "IsBinaryToken (type tok)")
    case False
    with "7.prems" have r: "r = \<lparr>status = Successful, expr = e\<rparr>" and rest: "rest = tok # m_it"
      by simp_all
    show ?thesis
    proof (rule consumesI [where pre = "[]"])
      show "tok # m_it = [] @ rest" using rest by simp
      show "True \<or> [] \<noteq> []" by simp
      show "CountNumControls x = controls_so_far e + int (resolved_controls finder [])"
        if "expr r = Some x" for x
        using that r by (simp add: controls_so_far_def)
      show "Binary_loop finder e ([] @ rest') = Inr (r, rest')"
        if "True \<Longrightarrow> stops_binary rest'" for rest'
        using that r by (cases rest') (simp_all add: stops_binary_def)
    qed
  next
    case True
    then have ty: "type tok \<noteq> TOK_CONTROL" by (auto simp: IsBinaryToken_cases)
    from True "7.prems" obtain ru restu where u: "Unary finder m_it = Inr (ru, restu)"
      by (cases "Unary finder m_it") auto
    have nse: "status ru \<noteq> SyntaxError"
    proof
      assume "status ru = SyntaxError"
      with True u "7.prems" show False by simp
    qed
    with parser_status(2) [OF u] have su: "status ru = Successful"
      by (cases "status ru") simp_all
    with parser_status(2) [OF u] obtain rhs where rhs: "expr ru = Some rhs" by auto
    from True u nse rhs "7.prems"(1) obtain lhs where lhs: "e = Some lhs"
      by (cases e) auto
    from True u nse rhs lhs "7.prems"(1)
    have l: "Binary_loop finder (Some (BinaryExpression (type tok) lhs rhs)) restu = Inr (r, rest)"
      by simp
    from "7.hyps"(1) [OF True u su] obtain pre1 where
      pre1: "m_it = pre1 @ restu"
        "\<forall>e. expr ru = Some e \<longrightarrow> CountNumControls e = 0 + int (resolved_controls finder pre1)"
        "\<forall>rest'. (False \<longrightarrow> stops_binary rest') \<longrightarrow> Unary finder (pre1 @ rest') = Inr (ru, rest')"
      by (rule consumesE)
    from "7.hyps"(2) [OF True u refl nse _ lhs rhs l "7.prems"(2)] lhs rhs obtain pre2 where
      pre2: "restu = pre2 @ rest"
        "\<forall>x. expr r = Some x \<longrightarrow>
           CountNumControls x =
             controls_so_far (Some (BinaryExpression (type tok) lhs rhs)) +
             int (resolved_controls finder pre2)"
        "\<forall>rest'. (True \<longrightarrow> stops_binary rest') \<longrightarrow>
           Binary_loop finder (Some (BinaryExpression (type tok) lhs rhs)) (pre2 @ rest') =
             Inr (r, rest')"
      by (auto elim: consumesE)
    show ?thesis
    proof (rule consumesI [where pre = "tok # pre1 @ pre2"])
      show "tok # m_it = (tok # pre1 @ pre2) @ rest" using pre1(1) pre2(1) by simp
      show "True \<or> tok # pre1 @ pre2 \<noteq> []" by simp
      show "CountNumControls x =
          controls_so_far e + int (resolved_controls finder (tok # pre1 @ pre2))"
        if "expr r = Some x" for x
        using that pre1(2) pre2(2) lhs rhs ty
        by (simp add: controls_so_far_def resolved_controls_append)
      show "Binary_loop finder e ((tok # pre1 @ pre2) @ rest') = Inr (r, rest')"
        if "True \<Longrightarrow> stops_binary rest'" for rest'
        using that pre1(3) pre2(3) True nse lhs rhs by simp
    qed
  qed
next
  case (8 finder m_it)
  from "8.prems" obtain rt restt where t: "Toplevel finder m_it = Inr (rt, restt)"
    by (cases "Toplevel finder m_it") auto
  have st: "status rt = Successful"
  proof (rule ccontr)
    assume "status rt \<noteq> Successful"
    with t "8.prems" show False by simp
  qed
  with t "8.prems"(1) obtain tok rest' where restt: "restt = tok # rest'"
    by (cases restt) auto
  have ty: "type tok = TOK_RPAREN"
  proof (rule ccontr)
    assume "type tok \<noteq> TOK_RPAREN"
    with t st restt "8.prems" show False by auto
  qed
  with t st restt "8.prems"(1) have r: "r = rt" and rest: "rest = rest'" by simp_all
  from "8.hyps" [OF t st] obtain pre where
    pre: "m_it = pre @ restt"
      "\<forall>e. expr rt = Some e \<longrightarrow> CountNumControls e = 0 + int (resolved_controls finder pre)"
      "\<forall>rest'. (True \<longrightarrow> stops_binary rest') \<longrightarrow> Toplevel finder (pre @ rest') = Inr (rt, rest')"
    by (rule consumesE)
  show ?case
  proof (rule consumesI [where pre = "pre @ [tok]"])
    show "m_it = (pre @ [tok]) @ rest" using pre(1) restt rest by simp
    show "False \<or> pre @ [tok] \<noteq> []" by simp
    show "CountNumControls e = 0 + int (resolved_controls finder (pre @ [tok]))"
      if "expr r = Some e" for e
      using that pre(2) r ty by (simp add: resolved_controls_append)
    show "Paren finder ((pre @ [tok]) @ rest'') = Inr (r, rest'')" for rest''
    proof -
      from ty have "stops_binary (tok # rest'')" by (simp add: stops_binary_Cons)
      with pre(3) have "Toplevel finder (pre @ tok # rest'') = Inr (rt, tok # rest'')" by simp
      with st ty r show ?thesis by simp
    qed
  qed
next
  case (9 finder m_it)
  from "9.prems" have b: "Binary finder m_it = Inr (r, rest)" by simp
  from "9.hyps" [OF b "9.prems"(2)] show ?case
    by (simp add: consumes_def)
qed

text \<open>
  Claim C10. When a token list \<open>pre\<close> followed by EOF parses successfully and completely,
  then \<open>pre\<close> followed by any tokens whose first one is not a binary operator parses
  successfully to the same tree: \<open>Toplevel\<close> leaves those tokens where they are and \<open>Parse\<close>
  returns the tree without looking at them.
\<close>

theorem trailing_tokens_ignored:
  assumes "Toplevel finder (pre @ [Token1 dq TOK_EOF]) = Inr (ok e, [Token1 dq TOK_EOF])"
    and "stops_binary rest"
  shows "Toplevel finder (pre @ rest) = Inr (ok e, rest) \<and> Parse finder (pre @ rest) = Inr (ok e)"
proof -
  from parser_consumes(6) [OF assms(1)] obtain pre' where
    pre': "pre @ [Token1 dq TOK_EOF] = pre' @ [Token1 dq TOK_EOF]"
      "\<forall>rest'. (True \<longrightarrow> stops_binary rest') \<longrightarrow> Toplevel finder (pre' @ rest') = Inr (ok e, rest')"
    by (auto elim: consumesE)
  from pre'(1) have "pre' = pre" by simp
  with pre'(2) assms(2) have "Toplevel finder (pre @ rest) = Inr (ok e, rest)" by simp
  then show ?thesis by (simp add: Parse_def)
qed

theorem trailing_tokens_ignored_witness:
  "Toplevel no_devices ([Token2 TOK_CONTROL (control_of ''A'')] @ [Token1 string_qualifiers TOK_EOF]) =
     Inr (ok (ControlExpression (control_of ''A'') None None), [Token1 string_qualifiers TOK_EOF]) \<and>
   stops_binary [Token1 string_qualifiers TOK_RPAREN, Token2 TOK_CONTROL (control_of ''B''),
     Token1 string_qualifiers TOK_EOF] \<and>
   Parse no_devices ([Token2 TOK_CONTROL (control_of ''A'')] @
       [Token1 string_qualifiers TOK_RPAREN, Token2 TOK_CONTROL (control_of ''B''),
        Token1 string_qualifiers TOK_EOF]) =
     Inr (ok (ControlExpression (control_of ''A'') None None)) \<and>
   ParseExpression string_qualifiers ''A ) B'' no_devices =
     Inr (Successful, Some (ControlExpression (control_of ''A'') None None)) \<and>
   ParseExpression string_qualifiers ''A B'' no_devices =
     Inr (Successful, Some (ControlExpression (control_of ''A'') None None))"
proof -
  have f: "FindControl no_devices (control_of ''A'') = None"
    "FindDevice no_devices (control_of ''A'') = None"
    "FindControl no_devices (legacy_qualifier string_qualifiers ''A ) B'') = None"
    "FindControl no_devices (legacy_qualifier string_qualifiers ''A B'') = None"
    by (simp_all add: finder_eval)
  have 1: "Toplevel no_devices
      ([Token2 TOK_CONTROL (control_of ''A'')] @ [Token1 string_qualifiers TOK_EOF]) =
     Inr (ok (ControlExpression (control_of ''A'') None None), [Token1 string_qualifiers TOK_EOF])"
    using f by (simp add: Token1_def Token2_def)
  have 2: "stops_binary [Token1 string_qualifiers TOK_RPAREN, Token2 TOK_CONTROL (control_of ''B''),
     Token1 string_qualifiers TOK_EOF]"
    by (simp add: stops_binary_def Token1_def)
  have 3: "Tokenize string_qualifiers ''A ) B'' [] =
      (Successful, [Token2 TOK_CONTROL (control_of ''A''), Token1 string_qualifiers TOK_RPAREN,
         Token2 TOK_CONTROL (control_of ''B''), Token1 string_qualifiers TOK_EOF])"
    "Tokenize string_qualifiers ''A B'' [] =
      (Successful, [Token2 TOK_CONTROL (control_of ''A''), Token2 TOK_CONTROL (control_of ''B''),
         Token1 string_qualifiers TOK_EOF])"
    by (simp_all add: lexer_eval string_qualifiers_def control_of_def)
  have 4: "StripSpaces ''A ) B'' \<noteq> []" "StripSpaces ''A B'' \<noteq> []"
    by (simp_all add: StripSpaces_def is_whitespace_def)
  have 5: "Parse no_devices [Token2 TOK_CONTROL (control_of ''A''), Token2 TOK_CONTROL (control_of ''B''),
         Token1 string_qualifiers TOK_EOF] = Inr (ok (ControlExpression (control_of ''A'') None None))"
    using f by (simp add: Parse_def Token1_def Token2_def)
  from trailing_tokens_ignored [OF 1 2] 1 2 3 4 5 f show ?thesis
    by (simp add: ParseExpression_unfold ParseExpressionInner_def)
qed

section \<open>Counting controls\<close>

lemma CountNumControls_bound: "CountNumControls e = int (length (bound_controls e))"
proof (induction e)
  case (ControlExpression q device control)
  then show ?case by (cases control) simp_all
qed simp_all

text \<open>
  Claim C2, as stated, fails: \<open>CountNumControls\<close> counts a leaf only when its control
  pointer is not null. The text \<^verbatim>\<open>`X`\<close> parses successfully and has one CONTROL token, the
  device has no control \<^verbatim>\<open>X\<close>, and the count is 0.
\<close>

theorem CountNumControls_unresolved_counterexample:
  "control_tokens (snd (Tokenize string_qualifiers ''`X`'' [])) = 1 \<and>
   ParseExpression string_qualifiers ''`X`'' pad_finder =
     Inr (Successful, Some (ControlExpression (control_of ''X'') (Some pad) None)) \<and>
   CountNumControls (ControlExpression (control_of ''X'') (Some pad) (None :: nat option)) = 0"
proof -
  have 1: "Tokenize string_qualifiers ''`X`'' [] =
      (Successful, [Token2 TOK_CONTROL (control_of ''X''), Token1 string_qualifiers TOK_EOF])"
    by (simp add: lexer_eval string_qualifiers_def control_of_def)
  have 2: "FindControl pad_finder (control_of ''X'') = None"
    "FindDevice pad_finder (control_of ''X'') = Some pad"
    "FindControl pad_finder (legacy_qualifier string_qualifiers ''`X`'') = None"
    by (simp_all add: finder_eval)
  have 3: "StripSpaces ''`X`'' \<noteq> []"
    by (simp add: StripSpaces_def is_whitespace_def)
  from 1 2 3 show ?thesis
    by (simp add: ParseExpression_unfold ParseExpressionInner_def Parse_def Token1_def Token2_def)
qed

text \<open>
  Claim C2, amended. On the tree of a successful parse \<open>CountNumControls\<close> is the number of
  leaves whose control resolved. When the parse went through the lexer and the parser,
  that is the number of CONTROL tokens, among the tokens the parser consumed, that the
  finder resolves to a control; when the first lookup of the whole text found a control,
  it is 1.
\<close>

theorem CountNumControls_resolved:
  assumes "ParseExpression dq str finder = Inr (Successful, Some e)"
  shows "CountNumControls e = int (length (bound_controls e)) \<and>
    (if FindControl finder (legacy_qualifier dq str) = None then
       (\<exists>tokens pre rest. Tokenize dq str [] = (Successful, tokens) \<and> tokens = pre @ rest \<and>
          Toplevel finder tokens = Inr (ok e, rest) \<and>
          CountNumControls e = int (resolved_controls finder pre))
     else CountNumControls e = 1)"
proof (cases "FindControl finder (legacy_qualifier dq str)")
  case (Some c)
  with assms show ?thesis
    by (auto simp: ParseExpression_unfold CountNumControls_bound)
next
  case None
  with assms obtain r where inner: "ParseExpressionInner dq str finder = Inr r"
    and r: "status r = Successful" "expr r = Some e"
    by (auto simp: ParseExpression_unfold split: sum.splits)
  then have r_eq: "r = ok e" by simp
  from inner r(1) have ne: "StripSpaces str \<noteq> []"
    by (auto simp: ParseExpressionInner_def split: if_splits)
  obtain st tokens where tk: "Tokenize dq str [] = (st, tokens)"
    by (cases "Tokenize dq str []") auto
  with inner ne r(1) have st: "st = Successful"
    by (auto simp: ParseExpressionInner_def split: if_splits)
  with inner ne tk r_eq obtain rest where top: "Toplevel finder tokens = Inr (ok e, rest)"
    by (auto simp: ParseExpressionInner_def Parse_def split: sum.splits)
  from parser_consumes(6) [OF top] obtain pre where
    "tokens = pre @ rest" "CountNumControls e = int (resolved_controls finder pre)"
    by (auto elim: consumesE)
  with tk st top None show ?thesis
    by (auto simp: CountNumControls_bound)
qed

theorem CountNumControls_resolved_witness:
  "ParseExpression string_qualifiers ''`X` | A'' pad_finder =
     Inr (Successful,
          Some (BinaryExpression TOK_OR (ControlExpression (control_of ''X'') (Some pad) None)
                  (ControlExpression (control_of ''A'') (Some pad) (Some 0)))) \<and>
   CountNumControls
     (BinaryExpression TOK_OR (ControlExpression (control_of ''X'') (Some pad) None)
        (ControlExpression (control_of ''A'') (Some pad) (Some (0::nat)))) = 1 \<and>
   control_tokens (snd (Tokenize string_qualifiers ''`X` | A'' [])) = 2"
proof -
  have 1: "Tokenize string_qualifiers ''`X` | A'' [] =
      (Successful, [Token2 TOK_CONTROL (control_of ''X''), Token1 string_qualifiers TOK_OR,
         Token2 TOK_CONTROL (control_of ''A''), Token1 string_qualifiers TOK_EOF])"
    by (simp add: lexer_eval string_qualifiers_def control_of_def)
  have 2: "FindControl pad_finder (control_of ''X'') = None"
    "FindDevice pad_finder (control_of ''X'') = Some pad"
    "FindControl pad_finder (control_of ''A'') = Some 0"
    "FindDevice pad_finder (control_of ''A'') = Some pad"
    "FindControl pad_finder (legacy_qualifier string_qualifiers ''`X` | A'') = None"
    by (simp_all add: finder_eval)
  have 3: "StripSpaces ''`X` | A'' \<noteq> []"
    by (simp add: StripSpaces_def is_whitespace_def)
  have 4: "ParseExpression string_qualifiers ''`X` | A'' pad_finder =
     Inr (Successful,
          Some (BinaryExpression TOK_OR (ControlExpression (control_of ''X'') (Some pad) None)
                  (ControlExpression (control_of ''A'') (Some pad) (Some 0))))"
    using 1 2 3
    by (simp add: ParseExpression_unfold ParseExpressionInner_def Parse_def Token1_def Token2_def)
  from CountNumControls_resolved [OF 4] 1 4 show ?thesis
    by (simp add: Token1_def Token2_def)
qed

section \<open>Associativity and the operand of NOT\<close>

lemma Binary_loop_left_fold:
  assumes "\<forall>(op, u, t)\<in>set items.
      IsBinaryToken (type op) \<and> (\<forall>m_it. Unary finder (u @ m_it) = Inr (ok t, m_it))"
    and "stops_binary rest"
  shows "Binary_loop finder (Some lhs) (concat (map (\<lambda>(op, u, t). op # u) items) @ rest) =
    Inr (ok (foldl (\<lambda>lhs (op, u, t). BinaryExpression (type op) lhs t) lhs items), rest)"
  using assms(1)
proof (induction items arbitrary: lhs)
  case Nil
  from assms(2) show ?case by (cases rest) (simp_all add: stops_binary_def)
next
  case (Cons item items)
  obtain op u t where item: "item = (op, u, t)" by (cases item) auto
  with Cons.prems have op: "IsBinaryToken (type op)"
    and u: "\<And>m_it. Unary finder (u @ m_it) = Inr (ok t, m_it)"
    and items: "\<forall>(op, u, t)\<in>set items.
      IsBinaryToken (type op) \<and> (\<forall>m_it. Unary finder (u @ m_it) = Inr (ok t, m_it))"
    by simp_all
  from Cons.IH [OF items, of "BinaryExpression (type op) lhs t"] item op u show ?case
    by simp
qed

text \<open>
  Claim C6. \<open>Binary\<close> on a first operand followed by any number of pairs of a binary
  operator and an operand returns the left fold of the operands, whatever the operators
  are: each operator makes the tree built so far its left child. \<open>Unary\<close> on a NOT token
  negates what \<open>Atom\<close> returns on the tokens after it, an atom starts with a CONTROL token
  or a left parenthesis, and a NOT directly after a NOT is a syntax error.
\<close>

theorem left_associative_single_tier:
  assumes "\<forall>(op, u, t)\<in>set items.
      IsBinaryToken (type op) \<and> (\<forall>m_it. Unary finder (u @ m_it) = Inr (ok t, m_it))"
    and "\<forall>m_it. Unary finder (u0 @ m_it) = Inr (ok t0, m_it)"
    and "stops_binary rest"
  shows "Binary finder (u0 @ concat (map (\<lambda>(op, u, t). op # u) items) @ rest) =
      Inr (ok (foldl (\<lambda>lhs (op, u, t). BinaryExpression (type op) lhs t) t0 items), rest) \<and>
    (type tok = TOK_NOT \<and> Atom finder m_it = Inr (ok inner, rest') \<longrightarrow>
       Unary finder (tok # m_it) = Inr (ok (UnaryExpression TOK_NOT inner), rest') \<and>
       (\<exists>first after. m_it = first # after \<and> (type first = TOK_CONTROL \<or> type first = TOK_LPAREN))) \<and>
    (type tok = TOK_NOT \<and> type tok' = TOK_NOT \<longrightarrow>
       Unary finder (tok # tok' # m_it) = Inr (\<lparr>status = SyntaxError, expr = None\<rparr>, m_it))"
proof -
  from assms(2) Binary_loop_left_fold [OF assms(1,3), of t0]
  have 1: "Binary finder (u0 @ concat (map (\<lambda>(op, u, t). op # u) items) @ rest) =
      Inr (ok (foldl (\<lambda>lhs (op, u, t). BinaryExpression (type op) lhs t) t0 items), rest)"
    by simp
  have 2: "Unary finder (tok # m_it) = Inr (ok (UnaryExpression TOK_NOT inner), rest') \<and>
       (\<exists>first after. m_it = first # after \<and> (type first = TOK_CONTROL \<or> type first = TOK_LPAREN))"
    if "type tok = TOK_NOT" and a: "Atom finder m_it = Inr (ok inner, rest')"
  proof
    from that show "Unary finder (tok # m_it) = Inr (ok (UnaryExpression TOK_NOT inner), rest')"
      by simp
    from a show "\<exists>first after. m_it = first # after \<and>
        (type first = TOK_CONTROL \<or> type first = TOK_LPAREN)"
      by (cases m_it) (auto split: if_splits)
  qed
  have 3: "Unary finder (tok # tok' # m_it) = Inr (\<lparr>status = SyntaxError, expr = None\<rparr>, m_it)"
    if "type tok = TOK_NOT" and "type tok' = TOK_NOT"
    using that by simp
  from 1 2 3 show ?thesis by blast
qed

theorem left_associative_single_tier_witness:
  "Binary no_devices
     [Token2 TOK_CONTROL (control_of ''A''), Token1 string_qualifiers TOK_AND,
      Token2 TOK_CONTROL (control_of ''B''), Token1 string_qualifiers TOK_ADD,
      Token2 TOK_CONTROL (control_of ''C''), Token1 string_qualifiers TOK_EOF] =
     Inr (ok (BinaryExpression TOK_ADD
                (BinaryExpression TOK_AND (ControlExpression (control_of ''A'') None None)
                   (ControlExpression (control_of ''B'') None None))
                (ControlExpression (control_of ''C'') None None)),
          [Token1 string_qualifiers TOK_EOF]) \<and>
   ParseExpression string_qualifiers ''A & B + C'' no_devices =
     Inr (Successful,
          Some (BinaryExpression TOK_ADD
                  (BinaryExpression TOK_AND (ControlExpression (control_of ''A'') None None)
                     (ControlExpression (control_of ''B'') None None))
                  (ControlExpression (control_of ''C'') None None))) \<and>
   ParseExpression string_qualifiers ''!A & B'' no_devices =
     Inr (Successful,
          Some (BinaryExpression TOK_AND
                  (UnaryExpression TOK_NOT (ControlExpression (control_of ''A'') None None))
                  (ControlExpression (control_of ''B'') None None))) \<and>
   ParseExpression string_qualifiers ''!!A'' no_devices = Inr (SyntaxError, None)"
proof -
  let ?A = "Token2 TOK_CONTROL (control_of ''A'')"
  let ?B = "Token2 TOK_CONTROL (control_of ''B'')"
  let ?C = "Token2 TOK_CONTROL (control_of ''C'') :: string Token"
  let ?a = "ControlExpression (control_of ''A'') None None :: (string, nat) Expression"
  let ?b = "ControlExpression (control_of ''B'') None None :: (string, nat) Expression"
  let ?c = "ControlExpression (control_of ''C'') None None :: (string, nat) Expression"
  have f: "\<And>n. FindControl no_devices (control_of n) = None"
    "\<And>n. FindDevice no_devices (control_of n) = None"
    "\<And>n. FindControl no_devices (legacy_qualifier string_qualifiers n) = None"
    by (simp_all add: finder_eval)
  have h1: "\<forall>(op, u, t)\<in>set [(Token1 string_qualifiers TOK_AND, [?B], ?b),
        (Token1 string_qualifiers TOK_ADD, [?C], ?c)].
      IsBinaryToken (type op) \<and> (\<forall>m_it. Unary no_devices (u @ m_it) = Inr (ok t, m_it))"
    using f by (simp add: Token1_def Token2_def)
  have h2: "\<forall>m_it. Unary no_devices ([?A] @ m_it) = Inr (ok ?a, m_it)"
    using f by (simp add: Token2_def)
  have h3: "stops_binary [Token1 string_qualifiers TOK_EOF]"
    by (simp add: stops_binary_def Token1_def)
  have 1: "Tokenize string_qualifiers ''A & B + C'' [] =
      (Successful, [?A, Token1 string_qualifiers TOK_AND, ?B, Token1 string_qualifiers TOK_ADD, ?C,
         Token1 string_qualifiers TOK_EOF])"
    "Tokenize string_qualifiers ''!A & B'' [] =
      (Successful, [Token1 string_qualifiers TOK_NOT, ?A, Token1 string_qualifiers TOK_AND, ?B,
         Token1 string_qualifiers TOK_EOF])"
    "Tokenize string_qualifiers ''!!A'' [] =
      (Successful, [Token1 string_qualifiers TOK_NOT, Token1 string_qualifiers TOK_NOT, ?A,
         Token1 string_qualifiers TOK_EOF])"
    by (simp_all add: lexer_eval string_qualifiers_def control_of_def)
  have 2: "StripSpaces ''A & B + C'' \<noteq> []" "StripSpaces ''!A & B'' \<noteq> []"
    "StripSpaces ''!!A'' \<noteq> []"
    by (simp_all add: StripSpaces_def is_whitespace_def)
  have 3: "ParseExpression string_qualifiers ''!A & B'' no_devices =
     Inr (Successful, Some (BinaryExpression TOK_AND (UnaryExpression TOK_NOT ?a) ?b))"
    "ParseExpression string_qualifiers ''!!A'' no_devices = Inr (SyntaxError, None)"
    using 1 2 f
    by (simp_all add: ParseExpression_unfold ParseExpressionInner_def Parse_def Token1_def
        Token2_def)
  from left_associative_single_tier [OF h1 h2 h3]
  have 4: "Binary no_devices
     [?A, Token1 string_qualifiers TOK_AND, ?B, Token1 string_qualifiers TOK_ADD, ?C,
      Token1 string_qualifiers TOK_EOF] =
     Inr (ok (BinaryExpression TOK_ADD (BinaryExpression TOK_AND ?a ?b) ?c),
          [Token1 string_qualifiers TOK_EOF])"
    by (simp add: Token1_def)
  then have "ParseExpression string_qualifiers ''A & B + C'' no_devices =
     Inr (Successful, Some (BinaryExpression TOK_ADD (BinaryExpression TOK_AND ?a ?b) ?c))"
    using 1 2 f by (simp add: ParseExpression_unfold ParseExpressionInner_def Parse_def)
  with 3 4 show ?thesis by simp
qed

section \<open>Rendering and parsing again\<close>













section \<open>When rendering and parsing again is stable\<close>


















end
